theory Spec2Isabelle
  imports Complex_Main
begin

section \<open>Data model\<close>

text \<open>
  JSON values, as \<open>JSON.parse\<close> returns them.  An object is the list of its entries;
  numbers are exact rationals.
\<close>

datatype json =
    JNull
  | JBool bool
  | JNum rat
  | JStr string
  | JArr "json list"
  | JObj "(string \<times> json) list"

text \<open>
  \<open>TreeNode\<close> (\<open>src/types/index.ts\<close>, and \<open>TreeNodeData\<close> in the panel).  The optional
  fields are options.  TypeScript's annotations are not checked at run time, so
  \<open>componentName\<close> holds whatever JSON value the \<open>opts\<close> attribute gave for \<open>name\<close>.
  The selector of the field \<open>id\<close> is \<open>id_node\<close>.
\<close>

datatype TreeNode = TreeNode
  (id_node: string)
  (tagName: string)
  (isAstroIsland: bool)
  (componentName: "json option")
  (clientDirective: "string option")
  (props: "json option")
  (framework: "string option")
  (children: "TreeNode list")
  (depth: nat)
  (path: string)

text \<open>The object spread \<open>{ ...node, children: cs }\<close>.\<close>

definition withChildren :: "TreeNode \<Rightarrow> TreeNode list \<Rightarrow> TreeNode" where
  "withChildren n cs =
     TreeNode (id_node n) (tagName n) (isAstroIsland n) (componentName n)
       (clientDirective n) (props n) (framework n) cs (depth n) (path n)"

section \<open>Tree model and filters\<close>

text \<open>
  \<open>hasIslandDescendant\<close>: the node is an island, or \<open>children.some\<close> finds one below.
\<close>

fun hasIslandDescendant :: "TreeNode \<Rightarrow> bool"
  and someIslandDescendant :: "TreeNode list \<Rightarrow> bool" where
  "hasIslandDescendant (TreeNode i t isI cn cd p f cs d pa) =
     (if isI then True else someIslandDescendant cs)"
| "someIslandDescendant [] = False"
| "someIslandDescendant (c # cs) =
     (if hasIslandDescendant c then True else someIslandDescendant cs)"

text \<open>
  \<open>collectExpandedNodes\<close>: the set \<open>result\<close> is mutated in the source and threaded here.
  The \<open>for\<close> loop over the children is \<open>collectExpandedChildren\<close>.
\<close>

fun collectExpandedNodes :: "TreeNode \<Rightarrow> string set \<Rightarrow> string set"
  and collectExpandedChildren :: "TreeNode list \<Rightarrow> string set \<Rightarrow> string set" where
  "collectExpandedNodes (TreeNode i t isI cn cd p f cs d pa) result =
     collectExpandedChildren cs (insert i result)"
| "collectExpandedChildren [] result = result"
| "collectExpandedChildren (c # cs) result =
     collectExpandedChildren cs
       (if hasIslandDescendant c then collectExpandedNodes c result else result)"

text \<open>
  \<open>flattenVisibleTree\<close>: \<open>result.push(node)\<close>, then the children when the node's id is
  in \<open>expandedNodes\<close>.
\<close>

fun flattenVisibleTree :: "TreeNode \<Rightarrow> string set \<Rightarrow> TreeNode list \<Rightarrow> TreeNode list"
  and flattenVisibleChildren :: "TreeNode list \<Rightarrow> string set \<Rightarrow> TreeNode list \<Rightarrow> TreeNode list" where
  "flattenVisibleTree (TreeNode i t isI cn cd p f cs d pa) expandedNodes result =
     (let result1 = result @ [TreeNode i t isI cn cd p f cs d pa]
      in if i \<in> expandedNodes then flattenVisibleChildren cs expandedNodes result1
         else result1)"
| "flattenVisibleChildren [] expandedNodes result = result"
| "flattenVisibleChildren (c # cs) expandedNodes result =
     flattenVisibleChildren cs expandedNodes (flattenVisibleTree c expandedNodes result)"

text \<open>
  \<open>findParent\<close>: \<open>parent\<close> is \<open>null\<close> (\<open>None\<close>) at the outer call and the enclosing
  node in the recursive ones.
\<close>

fun findParent :: "TreeNode \<Rightarrow> string \<Rightarrow> TreeNode option \<Rightarrow> TreeNode option"
  and findParentIn :: "TreeNode list \<Rightarrow> string \<Rightarrow> TreeNode \<Rightarrow> TreeNode option" where
  "findParent (TreeNode i t isI cn cd p f cs d pa) targetId parent =
     (if i = targetId then parent
      else findParentIn cs targetId (TreeNode i t isI cn cd p f cs d pa))"
| "findParentIn [] targetId par = None"
| "findParentIn (c # cs) targetId par =
     (case findParent c targetId (Some par) of
        Some found \<Rightarrow> Some found
      | None \<Rightarrow> findParentIn cs targetId par)"

text \<open>
  The function \<open>filter\<close> inside the \<open>filteredTree\<close> memo, here \<open>filterNode\<close>;
  \<open>filterNodes\<close> is \<open>children.map(filter).filter(c => c !== null)\<close>.
\<close>

fun filterNode :: "TreeNode \<Rightarrow> TreeNode option"
  and filterNodes :: "TreeNode list \<Rightarrow> TreeNode list" where
  "filterNode (TreeNode i t isI cn cd p f cs d pa) =
     (if isI then Some (TreeNode i t isI cn cd p f (filterNodes cs) d pa)
      else (let filteredChildren = filterNodes cs
            in if length filteredChildren > 0
               then Some (TreeNode i t isI cn cd p f filteredChildren d pa)
               else None))"
| "filterNodes [] = []"
| "filterNodes (c # cs) =
     (case filterNode c of
        None \<Rightarrow> filterNodes cs
      | Some c' \<Rightarrow> c' # filterNodes cs)"


section \<open>Session controller\<close>

text \<open>The state held by \<open>App\<close> through \<open>useState\<close>.\<close>

record session =
  tree :: "TreeNode option"
  selectedNode :: "TreeNode option"
  showIslandsOnly :: bool
  searchQuery :: string
  expandedNodes :: "string set"
  isLoading :: bool
  error :: "string option"

text \<open>The memo \<open>filteredTree\<close> and the memo \<open>visibleNodes\<close>.\<close>

definition filteredTree :: "session \<Rightarrow> TreeNode option" where
  "filteredTree s =
     (case tree s of
        None \<Rightarrow> None
      | Some t \<Rightarrow> if \<not> showIslandsOnly s then Some t else filterNode t)"

definition visibleNodes :: "session \<Rightarrow> TreeNode list" where
  "visibleNodes s =
     (case filteredTree s of
        None \<Rightarrow> []
      | Some ft \<Rightarrow> flattenVisibleTree ft (expandedNodes s) [])"

definition toggleNode :: "string \<Rightarrow> session \<Rightarrow> session" where
  "toggleNode nodeId s =
     (if nodeId \<in> expandedNodes s
      then s\<lparr>expandedNodes := expandedNodes s - {nodeId}\<rparr>
      else s\<lparr>expandedNodes := insert nodeId (expandedNodes s)\<rparr>)"

text \<open>\<open>Array.prototype.findIndex\<close> with the test \<open>n.id === selectedNode.id\<close>: \<open>-1\<close> when absent.\<close>

fun findIndexFrom :: "int \<Rightarrow> string \<Rightarrow> TreeNode list \<Rightarrow> int" where
  "findIndexFrom k i [] = -1"
| "findIndexFrom k i (n # ns) = (if id_node n = i then k else findIndexFrom (k + 1) i ns)"

text \<open>\<open>visibleNodes[k]\<close>: \<open>undefined\<close> out of range.\<close>

definition nodeAtIndex :: "TreeNode list \<Rightarrow> int \<Rightarrow> TreeNode option" where
  "nodeAtIndex ns k = (if 0 \<le> k \<and> k < int (length ns) then Some (ns ! nat k) else None)"

text \<open>
  What a key press does besides the state update: whether \<open>e.preventDefault()\<close> ran, and
  the paths handed to \<open>scrollToElement\<close>, in order.
\<close>

record effects =
  preventDefault :: bool
  scrolls :: "string list"

definition selectAndScroll :: "TreeNode \<Rightarrow> session \<Rightarrow> session \<times> effects" where
  "selectAndScroll n s =
     (s\<lparr>selectedNode := Some n\<rparr>, \<lparr>preventDefault = True, scrolls = [path n]\<rparr>)"

definition handled :: "session \<Rightarrow> session \<times> effects" where
  "handled s = (s, \<lparr>preventDefault = True, scrolls = []\<rparr>)"

definition handleKeyDown :: "string \<Rightarrow> session \<Rightarrow> session \<times> effects" where
  "handleKeyDown key s =
     (case filteredTree s of
        None \<Rightarrow> (s, \<lparr>preventDefault = False, scrolls = []\<rparr>)
      | Some ft \<Rightarrow>
          if length (visibleNodes s) = 0 then (s, \<lparr>preventDefault = False, scrolls = []\<rparr>)
          else
            (let currentIndex =
                   (case selectedNode s of
                      Some sel \<Rightarrow> findIndexFrom 0 (id_node sel) (visibleNodes s)
                    | None \<Rightarrow> -1)
             in
               if key = ''ArrowDown'' then
                 (case nodeAtIndex (visibleNodes s)
                         (min (currentIndex + 1) (int (length (visibleNodes s)) - 1)) of
                    Some nextNode \<Rightarrow> selectAndScroll nextNode s
                  | None \<Rightarrow> handled s)
               else if key = ''ArrowUp'' then
                 (case nodeAtIndex (visibleNodes s) (max (currentIndex - 1) 0) of
                    Some prevNode \<Rightarrow> selectAndScroll prevNode s
                  | None \<Rightarrow> handled s)
               else if key = ''ArrowRight'' then
                 (case selectedNode s of
                    None \<Rightarrow> handled s
                  | Some sel \<Rightarrow>
                      if id_node sel \<notin> expandedNodes s \<and> length (children sel) > 0
                      then handled (toggleNode (id_node sel) s)
                      else if length (children sel) > 0 \<and> id_node sel \<in> expandedNodes s
                      then selectAndScroll (hd (children sel)) s
                      else handled s)
               else if key = ''ArrowLeft'' then
                 (case selectedNode s of
                    None \<Rightarrow> handled s
                  | Some sel \<Rightarrow>
                      if id_node sel \<in> expandedNodes s \<and> length (children sel) > 0
                      then handled (toggleNode (id_node sel) s)
                      else
                        (case findParent ft (id_node sel) None of
                           Some parent \<Rightarrow> selectAndScroll parent s
                         | None \<Rightarrow> handled s))
               else if key = ''Enter'' then
                 (case selectedNode s of
                    Some sel \<Rightarrow> (s, \<lparr>preventDefault = True, scrolls = [path sel]\<rparr>)
                  | None \<Rightarrow> handled s)
               else (s, \<lparr>preventDefault = False, scrolls = []\<rparr>)))"


section \<open>The inspected page\<close>

text \<open>
  A \<open>DOMRect\<close> as \<open>getBoundingClientRect\<close> returns it and as the highlighter rebuilds
  it (\<open>x\<close> and \<open>y\<close> repeat \<open>left\<close> and \<open>top\<close> and are left out).  Coordinates are
  exact rationals.
\<close>

datatype DOMRect = DOMRect
  (r_top: rat) (r_left: rat) (r_right: rat) (r_bottom: rat) (r_width: rat) (r_height: rat)

text \<open>
  An element of the live DOM: \<open>tagName\<close> as the DOM reports it, the attributes
  \<open>getAttribute\<close> reads, the rectangle \<open>getBoundingClientRect\<close> returns for it, and
  \<open>children\<close> in document order.
\<close>

datatype Element = Element
  (tagNameE: string)
  (attributes: "(string \<times> string) list")
  (boundingClientRect: DOMRect)
  (childrenE: "Element list")

definition getAttribute :: "Element \<Rightarrow> string \<Rightarrow> string option" where
  "getAttribute e name = map_of (attributes e) name"

text \<open>
  The text of the overlay's label: the lower-case tag name, or \<open><name />\<close> for the
  \<open>name\<close> that the options of an island declare.
\<close>

datatype label = TagLabel string | ComponentLabel json

text \<open>
  What the code takes from its host and that is no code of the repository:
  \<^item> \<open>tabId\<close>: \<open>chrome.devtools.inspectedWindow.tabId\<close>;
  \<^item> \<open>JSON_parse\<close>: \<open>JSON.parse\<close>, \<open>None\<close> when it throws a \<open>SyntaxError\<close>;
  \<open>JSON_parse h s = None\<close> is what ``\<open>s\<close> is malformed JSON'' means;
  \<^item> \<open>numberOther\<close>: the child index that \<open>Number\<close> gives for a string that is neither
  empty nor all decimal digits (signs, exponents, hexadecimal, padding), \<open>None\<close> when the
  number is no index;
  \<^item> \<open>labelRect\<close>: the rectangle the layout gives the label of the overlay, for its
  text.
\<close>

record host =
  tabId :: "nat option"
  JSON_parse :: "string \<Rightarrow> json option"
  numberOther :: "string \<Rightarrow> nat option"
  labelRect :: "label \<Rightarrow> DOMRect"

section \<open>Strings\<close>

text \<open>
  \<open>String.prototype.toLowerCase\<close> on the ASCII letters.  Cased letters outside ASCII
  are left as they are, which shows only in the \<open>tagName\<close> of a node whose tag has one.
\<close>

definition toLowerChar :: "char \<Rightarrow> char" where
  "toLowerChar c =
     (let n = (of_char c :: nat) in if 65 \<le> n \<and> n \<le> 90 then char_of (n + 32) else c)"

definition toLowerCase :: "string \<Rightarrow> string" where
  "toLowerCase s = map toLowerChar s"

text \<open>\<open>String.prototype.includes\<close>, here \<open>includes_str\<close>.\<close>

fun startsWith :: "string \<Rightarrow> string \<Rightarrow> bool" where
  "startsWith s [] = True"
| "startsWith [] (p # ps) = False"
| "startsWith (c # cs) (p # ps) = (if c = p then startsWith cs ps else False)"

fun includes_str :: "string \<Rightarrow> string \<Rightarrow> bool" where
  "includes_str [] sub = startsWith [] sub"
| "includes_str (c # cs) sub = (if startsWith (c # cs) sub then True else includes_str cs sub)"

text \<open>The template literal \<open>`${i}`\<close> of a non-negative integer: its decimal digits.\<close>

definition digitChar :: "nat \<Rightarrow> char" where
  "digitChar d = char_of (48 + d)"

fun showNat :: "nat \<Rightarrow> string" where
  "showNat n = (if n < 10 then [digitChar n] else showNat (n div 10) @ [digitChar (n mod 10)])"

declare showNat.simps [simp del]

text \<open>\<open>String.prototype.split(".")\<close>: the empty string gives one empty segment.\<close>

fun splitDotAcc :: "string \<Rightarrow> string \<Rightarrow> string list" where
  "splitDotAcc cur [] = [cur]"
| "splitDotAcc cur (c # cs) =
     (if c = CHR ''.'' then cur # splitDotAcc [] cs else splitDotAcc (cur @ [c]) cs)"

definition splitDot :: "string \<Rightarrow> string list" where
  "splitDot s = splitDotAcc [] s"

text \<open>
  \<open>Number(seg)\<close> as the index in \<open>element.children[index]\<close>: \<open>Number("")\<close> is \<open>0\<close>, a
  string of decimal digits is its value, and the host decides the rest.
\<close>

definition isDigit :: "char \<Rightarrow> bool" where
  "isDigit c = (let n = (of_char c :: nat) in 48 \<le> n \<and> n \<le> 57)"

definition digitVal :: "char \<Rightarrow> nat" where
  "digitVal c = of_char c - 48"

definition decimalValue :: "string \<Rightarrow> nat" where
  "decimalValue s = foldl (\<lambda>acc c. 10 * acc + digitVal c) 0 s"

definition toIndex :: "host \<Rightarrow> string \<Rightarrow> nat option" where
  "toIndex h seg =
     (if seg = [] then Some 0
      else if list_all isDigit seg then Some (decimalValue seg)
      else numberOther h seg)"

section \<open>Tree builder\<close>

text \<open>
  The body of the \<open>try\<close> around \<open>JSON.parse(opts).name\<close>: \<open>JSON.parse\<close> throws on
  malformed text, and reading \<open>.name\<close> of \<open>null\<close> throws a \<open>TypeError\<close>; every other
  value has the property or gives \<open>undefined\<close>.  The empty \<open>catch\<close> leaves
  \<open>componentName\<close> undefined.
\<close>

datatype jsError = SyntaxError | TypeError

definition parseOptsName :: "host \<Rightarrow> string \<Rightarrow> jsError + json option" where
  "parseOptsName h opts =
     (case JSON_parse h opts of
        None \<Rightarrow> Inl SyntaxError
      | Some JNull \<Rightarrow> Inl TypeError
      | Some (JObj kvs) \<Rightarrow> Inr (map_of kvs ''name'')
      | Some v \<Rightarrow> Inr None)"

definition nameFromOpts :: "host \<Rightarrow> string option \<Rightarrow> json option" where
  "nameFromOpts h opts =
     (case opts of
        None \<Rightarrow> None
      | Some os \<Rightarrow>
          if os = [] then None
          else (case parseOptsName h os of Inl err \<Rightarrow> None | Inr v \<Rightarrow> v))"

text \<open>JavaScript truthiness of an optional JSON value (\<open>!componentName\<close>).\<close>

fun truthy :: "json option \<Rightarrow> bool" where
  "truthy None = False"
| "truthy (Some JNull) = False"
| "truthy (Some (JBool b)) = b"
| "truthy (Some (JNum r)) = (r \<noteq> 0)"
| "truthy (Some (JStr s)) = (s \<noteq> [])"
| "truthy (Some (JArr vs)) = True"
| "truthy (Some (JObj kvs)) = True"

text \<open>
  \<open>url.match(/\/([^/]+?)(?:\.[^.]+)?$/)\<close>, group 1.  \<open>extensionToEnd rest\<close>: the optional
  group and \<open>$\<close> match \<open>rest\<close>, which is empty or a dot followed by one or more characters
  other than a dot.  \<open>lazyGroup g rest\<close>: the lazy \<open>[^/]+?\<close> has taken \<open>g\<close> and grows one
  character at a time until the remainder matches.  \<open>matchComponentUrl\<close> tries every
  \<open>/\<close> from the left.
\<close>

definition extensionToEnd :: "string \<Rightarrow> bool" where
  "extensionToEnd rest =
     (case rest of
        [] \<Rightarrow> True
      | c # t \<Rightarrow> c = CHR ''.'' \<and> t \<noteq> [] \<and> CHR ''.'' \<notin> set t)"

fun lazyGroup :: "string \<Rightarrow> string \<Rightarrow> string option" where
  "lazyGroup g [] = (if g \<noteq> [] then Some g else None)"
| "lazyGroup g (c # cs) =
     (if g \<noteq> [] \<and> extensionToEnd (c # cs) then Some g
      else if c = CHR ''/'' then None
      else lazyGroup (g @ [c]) cs)"

fun matchComponentUrl :: "string \<Rightarrow> string option" where
  "matchComponentUrl [] = None"
| "matchComponentUrl (c # cs) =
     (if c = CHR ''/'' then
        (case lazyGroup [] cs of
           Some g \<Rightarrow> Some g
         | None \<Rightarrow> matchComponentUrl cs)
      else matchComponentUrl cs)"

text \<open>The fallback \<open>match?.[1] || "Island"\<close> on \<open>getAttribute("component-url") || ""\<close>.\<close>

definition nameFromUrl :: "string option \<Rightarrow> string" where
  "nameFromUrl urlAttr =
     (let url = (case urlAttr of None \<Rightarrow> [] | Some u \<Rightarrow> u)
      in case matchComponentUrl url of
           None \<Rightarrow> ''Island''
         | Some g \<Rightarrow> if g = [] then ''Island'' else g)"

definition componentNameOf :: "host \<Rightarrow> Element \<Rightarrow> json" where
  "componentNameOf h element =
     (let componentName = nameFromOpts h (getAttribute element ''opts'')
      in if \<not> truthy componentName
         then JStr (nameFromUrl (getAttribute element ''component-url''))
         else the componentName)"

definition clientDirectiveOf :: "Element \<Rightarrow> string" where
  "clientDirectiveOf element =
     (case getAttribute element ''client'' of
        None \<Rightarrow> ''load''
      | Some c \<Rightarrow> if c = [] then ''load'' else c)"

definition propsOf :: "host \<Rightarrow> Element \<Rightarrow> json option" where
  "propsOf h element =
     (case getAttribute element ''props'' of
        None \<Rightarrow> None
      | Some propsAttr \<Rightarrow>
          if propsAttr \<noteq> [] \<and> propsAttr \<noteq> ''{}'' then JSON_parse h propsAttr else None)"

definition frameworkOf :: "string \<Rightarrow> string option" where
  "frameworkOf renderer =
     (if includes_str renderer ''react'' \<or> includes_str renderer ''client.C'' then Some ''React''
      else if includes_str renderer ''vue'' then Some ''Vue''
      else if includes_str renderer ''svelte'' then Some ''Svelte''
      else if includes_str renderer ''solid'' then Some ''Solid''
      else if includes_str renderer ''preact'' then Some ''Preact''
      else None)"

definition rendererOf :: "Element \<Rightarrow> string" where
  "rendererOf element =
     (case getAttribute element ''renderer-url'' of None \<Rightarrow> [] | Some r \<Rightarrow> r)"

text \<open>The path of child \<open>i\<close>: \<open>path ? `${path}.${i}` : `${i}`\<close>.\<close>

definition childPath :: "string \<Rightarrow> nat \<Rightarrow> string" where
  "childPath p i = (if p \<noteq> [] then p @ ''.'' @ showNat i else showNat i)"

text \<open>
  \<open>buildTree\<close>.  The counter \<open>nodeId\<close> of \<open>buildTreeInPage\<close> is threaded: it comes in
  as the last argument and goes out with the node.  \<open>buildChildren\<close> is the
  \<open>forEach((child, i) => ...)\<close> over \<open>element.children\<close>, from index \<open>i\<close> on.
\<close>

fun buildTree :: "host \<Rightarrow> Element \<Rightarrow> nat \<Rightarrow> string \<Rightarrow> nat \<Rightarrow> TreeNode \<times> nat"
  and buildChildren ::
    "host \<Rightarrow> Element list \<Rightarrow> nat \<Rightarrow> nat \<Rightarrow> string \<Rightarrow> nat \<Rightarrow> TreeNode list \<times> nat" where
  "buildTree h (Element tg ats r cs) dep pa nodeId =
     (let element = Element tg ats r cs;
          tag = toLowerCase tg;
          isIsland = (tag = ''astro-island'');
          kids = buildChildren h cs 0 (dep + 1) pa (nodeId + 1)
      in (TreeNode (''node-'' @ showNat nodeId) tag isIsland
            (if isIsland then Some (componentNameOf h element) else None)
            (if isIsland then Some (clientDirectiveOf element) else None)
            (if isIsland then propsOf h element else None)
            (if isIsland then frameworkOf (rendererOf element) else None)
            (fst kids) dep pa,
          snd kids))"
| "buildChildren h [] i dep pa nodeId = ([], nodeId)"
| "buildChildren h (c # cs) i dep pa nodeId =
     (let first = buildTree h c dep (childPath pa i) nodeId;
          others = buildChildren h cs (i + 1) dep pa (snd first)
      in (fst first # fst others, snd others))"

definition buildTreeInPage :: "host \<Rightarrow> Element \<Rightarrow> TreeNode" where
  "buildTreeInPage h body = fst (buildTree h body 0 [] 0)"


section \<open>Highlighter\<close>

text \<open>
  Path resolution, the same lines in \<open>highlightElement\<close> and \<open>scrollToElement\<close>:
  \<open>descend\<close> is the \<open>for\<close> loop with its \<open>if (!element) break\<close>, and
  \<open>element.children[index] || null\<close> is \<open>childAt\<close>.
\<close>

definition childAt :: "Element \<Rightarrow> nat option \<Rightarrow> Element option" where
  "childAt e index =
     (case index of
        None \<Rightarrow> None
      | Some k \<Rightarrow> if k < length (childrenE e) then Some (childrenE e ! k) else None)"

fun descend :: "Element option \<Rightarrow> nat option list \<Rightarrow> Element option" where
  "descend element [] = element"
| "descend None (index # indices) = None"
| "descend (Some e) (index # indices) = descend (childAt e index) indices"

definition pathIndices :: "host \<Rightarrow> string \<Rightarrow> nat option list" where
  "pathIndices h elementPath = map (toIndex h) (splitDot elementPath)"

definition findByPath :: "host \<Rightarrow> Element \<Rightarrow> string \<Rightarrow> Element option" where
  "findByPath h body elementPath =
     (if elementPath \<noteq> [] then descend (Some body) (pathIndices h elementPath)
      else Some body)"

text \<open>
  The overlay is the element with the id \<open>__astro_devtools_highlight__\<close>, appended to
  \<open>document.body\<close>.  \<open>removeById\<close> is \<open>getElementById(...)\<close> followed by \<open>remove()\<close>:
  the first element below \<open>body\<close>, in document order, that carries the id is taken out;
  the flag tells whether one was found.  The document is taken to carry the id nowhere
  else: not on \<open>body\<close> itself and not outside it.
\<close>

definition highlightId :: string where
  "highlightId = ''__astro_devtools_highlight__''"

fun removeById :: "string \<Rightarrow> Element list \<Rightarrow> Element list \<times> bool" where
  "removeById i [] = ([], False)"
| "removeById i (Element tg ats r cs # es) =
     (if map_of ats ''id'' = Some i then (es, True)
      else (case removeById i cs of
              (cs', True) \<Rightarrow> (Element tg ats r cs' # es, True)
            | (cs', False) \<Rightarrow>
                (case removeById i es of (es', found) \<Rightarrow> (Element tg ats r cs # es', found))))"

definition removeExisting :: "Element \<Rightarrow> Element" where
  "removeExisting body =
     Element (tagNameE body) (attributes body) (boundingClientRect body)
       (fst (removeById highlightId (childrenE body)))"

text \<open>
  \<open>calculateBounds\<close>.  The four accumulators start at \<open>\<plusminus>Infinity\<close> and are updated
  together, so \<open>None\<close> stands for the start and \<open>Some (minX, minY, maxX, maxY)\<close> for
  what they hold after the first sized rectangle; \<open>minX !== Infinity\<close> is \<open>Some\<close>.
\<close>

type_synonym bounds = "(rat \<times> rat \<times> rat \<times> rat) option"

definition extendBounds :: "DOMRect \<Rightarrow> bounds \<Rightarrow> bounds" where
  "extendBounds r b =
     (case b of
        None \<Rightarrow> Some (r_left r, r_top r, r_right r, r_bottom r)
      | Some (minX, minY, maxX, maxY) \<Rightarrow>
          Some (min minX (r_left r), min minY (r_top r),
                max maxX (r_right r), max maxY (r_bottom r)))"

fun calculateBounds :: "Element \<Rightarrow> bounds \<Rightarrow> bounds"
  and calculateBoundsOfChildren :: "Element list \<Rightarrow> bounds \<Rightarrow> bounds" where
  "calculateBounds (Element tg ats r cs) b =
     calculateBoundsOfChildren cs
       (if r_width r > 0 \<and> r_height r > 0 then extendBounds r b else b)"
| "calculateBoundsOfChildren [] b = b"
| "calculateBoundsOfChildren (c # cs) b =
     calculateBoundsOfChildren cs (calculateBounds c b)"

text \<open>
  The rectangle of the overlay for a resolved element, from \<open>let rect = ...\<close> to
  \<open>// Skip if still no dimensions\<close>: \<open>None\<close> is the early \<open>return\<close>.  Width and
  height of the synthesized box are the exact differences of its edges, where the code
  rounds them to doubles.
\<close>

definition overlayRect :: "Element \<Rightarrow> DOMRect option" where
  "overlayRect element =
     (let rect0 = boundingClientRect element;
          rect =
            (if (r_width rect0 = 0 \<or> r_height rect0 = 0) \<and> length (childrenE element) > 0
             then (case calculateBounds element None of
                     Some (minX, minY, maxX, maxY) \<Rightarrow>
                       DOMRect minY minX maxX maxY (maxX - minX) (maxY - minY)
                   | None \<Rightarrow> rect0)
             else rect0)
      in if r_width rect = 0 \<or> r_height rect = 0 then None else Some rect)"

text \<open>
  The label.  \<open>labelTry\<close> is the body of the \<open>try\<close>: \<open>JSON.parse\<close> throws on
  malformed text and reading \<open>.name\<close> of \<open>null\<close> throws; otherwise the label changes
  when \<open>opts.name\<close> is truthy.  \<open>labelOf\<close> has the empty \<open>catch\<close>, which keeps the tag
  name.
\<close>

definition labelTry :: "host \<Rightarrow> string \<Rightarrow> jsError + label option" where
  "labelTry h name =
     (case JSON_parse h name of
        None \<Rightarrow> Inl SyntaxError
      | Some JNull \<Rightarrow> Inl TypeError
      | Some (JObj kvs) \<Rightarrow>
          Inr (if truthy (map_of kvs ''name'')
               then Some (ComponentLabel (the (map_of kvs ''name''))) else None)
      | Some v \<Rightarrow> Inr None)"

definition labelOf :: "host \<Rightarrow> Element \<Rightarrow> jsError + label" where
  "labelOf h element =
     (let tag = toLowerCase (tagNameE element)
      in if tag = ''astro-island'' then
           (case getAttribute element ''opts'' of
              None \<Rightarrow> Inr (TagLabel tag)
            | Some name \<Rightarrow>
                if name = [] then Inr (TagLabel tag)
                else (case labelTry h name of
                        Inl err \<Rightarrow> Inr (TagLabel tag)
                      | Inr None \<Rightarrow> Inr (TagLabel tag)
                      | Inr (Some l) \<Rightarrow> Inr l))
         else Inr (TagLabel tag))"




definition hasTab :: "host \<Rightarrow> bool" where
  "hasTab h = (case tabId h of None \<Rightarrow> False | Some n \<Rightarrow> n \<noteq> 0)"

text \<open>
  All that the panel's functions can reach: the session state of the panel and the body
  of the inspected page.  \<open>highlightElement\<close>, \<open>clearHighlight\<close> and \<open>scrollToElement\<close>
  take it to the state after the call (\<open>Inr\<close>), or to the exception of the injected
  function with which the call fails (\<open>Inl\<close>).  A failure of \<open>executeScript\<close> itself is
  outside the model.
\<close>

record world =
  panel :: session
  page :: Element


text \<open>\<open>clearHighlight\<close>.\<close>

definition clearHighlight :: "host \<Rightarrow> world \<Rightarrow> jsError + world" where
  "clearHighlight h w =
     (if \<not> hasTab h then Inr w else Inr (w\<lparr>page := removeExisting (page w)\<rparr>))"





section \<open>Notions of the specification\<close>

text \<open>All nodes of a tree, root first, in document order.\<close>

fun nodes :: "TreeNode \<Rightarrow> TreeNode list"
  and nodesOf :: "TreeNode list \<Rightarrow> TreeNode list" where
  "nodes (TreeNode i t isI cn cd p f cs d pa) =
     TreeNode i t isI cn cd p f cs d pa # nodesOf cs"
| "nodesOf [] = []"
| "nodesOf (c # cs) = nodes c @ nodesOf cs"

text \<open>
  The node, and the element, reached from the root by a list of child indices.  The
  builder makes child \<open>i\<close> of a node from child \<open>i\<close> of the node's element, so the
  node at a position is the one built from the element at that position.
\<close>

fun nodeAt :: "TreeNode \<Rightarrow> nat list \<Rightarrow> TreeNode option" where
  "nodeAt n [] = Some n"
| "nodeAt n (i # pos) =
     (if i < length (children n) then nodeAt (children n ! i) pos else None)"

fun elementAt :: "Element \<Rightarrow> nat list \<Rightarrow> Element option" where
  "elementAt e [] = Some e"
| "elementAt e (i # pos) =
     (if i < length (childrenE e) then elementAt (childrenE e ! i) pos else None)"

text \<open>The segments of a path: none for the empty path of the root.\<close>

definition pathSegments :: "string \<Rightarrow> string list" where
  "pathSegments p = (if p = [] then [] else splitDot p)"

text \<open>
  The path the builder gives the node at a position below a node of path \<open>p\<close>: one
  \<open>childPath\<close> step for each index.
\<close>

fun pathAt :: "string \<Rightarrow> nat list \<Rightarrow> string" where
  "pathAt p [] = p"
| "pathAt p (i # pos) = pathAt (childPath p i) pos"

text \<open>
  Every node with the ids of its ancestors, outermost first, the node itself excluded;
  \<open>chainExpanded\<close>: that chain lies within the expanded ids.
\<close>

fun withAncestors :: "TreeNode \<Rightarrow> string list \<Rightarrow> (TreeNode \<times> string list) list"
  and withAncestorsOf :: "TreeNode list \<Rightarrow> string list \<Rightarrow> (TreeNode \<times> string list) list" where
  "withAncestors (TreeNode i t isI cn cd p f cs d pa) anc =
     (TreeNode i t isI cn cd p f cs d pa, anc) # withAncestorsOf cs (anc @ [i])"
| "withAncestorsOf [] anc = []"
| "withAncestorsOf (c # cs) anc = withAncestors c anc @ withAncestorsOf cs anc"

definition chainExpanded :: "string set \<Rightarrow> TreeNode \<times> string list \<Rightarrow> bool" where
  "chainExpanded expandedIds na = list_all (\<lambda>a. a \<in> expandedIds) (snd na)"

text \<open>
  The paths from the root to every node below it, as lists of nodes; those that end in
  an island; and whether an id is the id of a node on one of these.
\<close>

fun rootPaths :: "TreeNode \<Rightarrow> TreeNode list list"
  and rootPathsOf :: "TreeNode list \<Rightarrow> TreeNode list list" where
  "rootPaths (TreeNode i t isI cn cd p f cs d pa) =
     [TreeNode i t isI cn cd p f cs d pa]
       # map ((#) (TreeNode i t isI cn cd p f cs d pa)) (rootPathsOf cs)"
| "rootPathsOf [] = []"
| "rootPathsOf (c # cs) = rootPaths c @ rootPathsOf cs"

definition islandPaths :: "TreeNode \<Rightarrow> TreeNode list list" where
  "islandPaths t = filter (\<lambda>p. isAstroIsland (last p)) (rootPaths t)"

definition onIslandPath :: "TreeNode \<Rightarrow> string \<Rightarrow> bool" where
  "onIslandPath t i = list_ex (\<lambda>p. list_ex (\<lambda>n. id_node n = i) p) (islandPaths t)"

text \<open>
  All descendants of an element at any depth, the element itself excluded; a rectangle
  of non-zero size (a \<open>DOMRect\<close> of the browser has no negative dimension); the union
  box of a list of rectangles.
\<close>

fun descendants :: "Element \<Rightarrow> Element list"
  and descendantsOf :: "Element list \<Rightarrow> Element list" where
  "descendants (Element tg ats r cs) = descendantsOf cs"
| "descendantsOf [] = []"
| "descendantsOf (c # cs) = (c # descendants c) @ descendantsOf cs"

definition nonZeroSized :: "DOMRect \<Rightarrow> bool" where
  "nonZeroSized r = (r_width r > 0 \<and> r_height r > 0)"

definition unionBox :: "DOMRect list \<Rightarrow> DOMRect option" where
  "unionBox rs =
     (if rs = [] then None
      else (let minX = Min (set (map r_left rs)); minY = Min (set (map r_top rs));
                maxX = Max (set (map r_right rs)); maxY = Max (set (map r_bottom rs))
            in Some (DOMRect minY minX maxX maxY (maxX - minX) (maxY - minY))))"

definition sizedDescendantRects :: "Element \<Rightarrow> DOMRect list" where
  "sizedDescendantRects e = filter nonZeroSized (map boundingClientRect (descendants e))"



text \<open>
  The rule for the overlay rectangle as the specification words it: synthesis when
  \<^emph>\<open>both\<close> dimensions of the element's own rectangle are zero and it has children.
\<close>

definition overlayRect_spec :: "Element \<Rightarrow> DOMRect option" where
  "overlayRect_spec e =
     (let r = boundingClientRect e
      in if (r_width r = 0 \<and> r_height r = 0) \<and> childrenE e \<noteq> []
         then unionBox (sizedDescendantRects e)
         else if r_width r = 0 \<or> r_height r = 0 then None else Some r)"

text \<open>A rectangle as the browser gives it: no negative dimension, consistent edges.\<close>

definition browserRect :: "DOMRect \<Rightarrow> bool" where
  "browserRect r =
     (0 \<le> r_width r \<and> 0 \<le> r_height r \<and>
      r_right r = r_left r + r_width r \<and> r_bottom r = r_top r + r_height r)"

text \<open>
  The name the specification asks of the fallback: the last path segment of the URL,
  its trailing file extension stripped, and \<open>Island\<close> when nothing is left.
\<close>

definition lastSegment :: "string \<Rightarrow> string" where
  "lastSegment url = rev (takeWhile (\<lambda>c. c \<noteq> CHR ''/'') (rev url))"

definition stripExtension :: "string \<Rightarrow> string" where
  "stripExtension seg =
     (let ext = takeWhile (\<lambda>c. c \<noteq> CHR ''.'') (rev seg)
      in if length ext < length seg \<and> ext \<noteq> [] \<and> length ext + 1 < length seg
         then take (length seg - length ext - 1) seg
         else seg)"

definition nameFromUrl_spec :: "string option \<Rightarrow> string" where
  "nameFromUrl_spec urlAttr =
     (case urlAttr of
        None \<Rightarrow> ''Island''
      | Some url \<Rightarrow>
          (let name = stripExtension (lastSegment url)
           in if name = [] then ''Island'' else name))"


section \<open>Sample inputs\<close>

text \<open>
  A snapshot of \<open><body><astro-island><div/></astro-island><p/></body>\<close>, and its
  parts.
\<close>

definition sampleDiv :: TreeNode where
  "sampleDiv = TreeNode ''node-2'' ''div'' False None None None None [] 2 ''0.0''"

definition sampleIsland :: TreeNode where
  "sampleIsland =
     TreeNode ''node-1'' ''astro-island'' True (Some (JStr ''Counter'')) (Some ''load'')
       None (Some ''React'') [sampleDiv] 1 ''0''"

definition sampleP :: TreeNode where
  "sampleP = TreeNode ''node-3'' ''p'' False None None None None [] 1 ''1''"

definition sampleTree :: TreeNode where
  "sampleTree = TreeNode ''node-0'' ''body'' False None None None None [sampleIsland, sampleP] 0 []"

text \<open>A snapshot without any island: \<open><body><p/></body>\<close>.\<close>

definition plainTree :: TreeNode where
  "plainTree =
     TreeNode ''node-0'' ''body'' False None None None None
       [TreeNode ''node-1'' ''p'' False None None None None [] 1 ''0''] 0 []"

text \<open>
  The page of that snapshot.  The island has no box of its own; its \<open>div\<close> is 100 by
  40 at (5, 10).  The host parses the one \<open>opts\<close> text of the page and reports every
  other text as malformed.
\<close>

definition zeroRect :: DOMRect where
  "zeroRect = DOMRect 0 0 0 0 0 0"

definition sampleOpts :: string where
  \<open>sampleOpts = ''{"name":"Counter"}''\<close>

definition sampleHost :: host where
  "sampleHost =
     \<lparr>tabId = Some 7,
      JSON_parse = (\<lambda>s. if s = sampleOpts then Some (JObj [(''name'', JStr ''Counter'')])
                         else None),
      numberOther = (\<lambda>s. None),
      labelRect = (\<lambda>l. DOMRect (-20) 5 40 (-4) 35 16)\<rparr>"

definition sampleDivE :: Element where
  "sampleDivE = Element ''DIV'' [] (DOMRect 10 5 105 50 100 40) []"

definition sampleIslandE :: Element where
  "sampleIslandE =
     Element ''ASTRO-ISLAND''
       [(''opts'', sampleOpts), (''renderer-url'', ''/_astro/client.preact.js'')]
       zeroRect [sampleDivE]"

definition samplePE :: Element where
  "samplePE = Element ''P'' [] (DOMRect 60 5 305 80 300 20) []"

definition sampleBody :: Element where
  "sampleBody = Element ''BODY'' [] (DOMRect 0 0 800 600 800 600) [sampleIslandE, samplePE]"

text \<open>
  An island whose own box has no width but some height, over the sized \<open>div\<close>; an
  island with a child and no sized box anywhere, and a page holding it; an island with
  malformed \<open>opts\<close> whose component URL has a dot in a directory name.
\<close>

definition thinIslandE :: Element where
  "thinIslandE = Element ''ASTRO-ISLAND'' [] (DOMRect 10 5 5 50 0 40) [sampleDivE]"

definition hollowIslandE :: Element where
  "hollowIslandE = Element ''ASTRO-ISLAND'' [] zeroRect [Element ''SPAN'' [] zeroRect []]"


definition dottedIslandE :: Element where
  "dottedIslandE =
     Element ''ASTRO-ISLAND'' [(''opts'', ''{bad''), (''component-url'', ''/ui.kit/Counter'')]
       zeroRect []"

text \<open>
  Two sessions: the island of the sample selected and expanded; and, on the page without
  islands, the root selected and expanded with the islands-only filter switched on.
\<close>

definition collapsedRun :: session where
  "collapsedRun =
     \<lparr>tree = Some sampleTree, selectedNode = Some sampleIsland, showIslandsOnly = False,
      searchQuery = [], expandedNodes = {''node-0'', ''node-1''}, isLoading = False,
      error = None\<rparr>"

definition noIslandsRun :: session where
  "noIslandsRun =
     \<lparr>tree = Some plainTree, selectedNode = Some plainTree, showIslandsOnly = True,
      searchQuery = [], expandedNodes = {''node-0''}, isLoading = False,
      error = None\<rparr>"



definition secondChildRun :: session where
  "secondChildRun = collapsedRun\<lparr>selectedNode := Some sampleP\<rparr>"

text \<open>The accumulators of \<open>calculateBounds\<close> run over a list of rectangles.\<close>

definition foldBounds :: "DOMRect list \<Rightarrow> bounds \<Rightarrow> bounds" where
  "foldBounds rs b = foldl (\<lambda>acc r. extendBounds r acc) b rs"

section \<open>Islands-only filter\<close>

lemma filter_none_iff:
  "(filterNode n = None) = (\<not> hasIslandDescendant n)"
  "(filterNodes cs = []) = (\<not> someIslandDescendant cs)"
  by (induction n and cs rule: filterNode_filterNodes.induct)
     (auto simp: Let_def split: option.splits)

lemma kept_iff: "hasIslandDescendant n = (\<exists>m. filterNode n = Some m)"
  using filter_none_iff(1)[of n] by auto

lemma filterNodes_survivors:
  "filterNodes cs = map (\<lambda>c. the (filterNode c)) (filter hasIslandDescendant cs)"
  by (induction cs) (auto simp: kept_iff split: option.splits)

lemma filterNode_island:
  "isAstroIsland n \<Longrightarrow> filterNode n = Some (withChildren n (filterNodes (children n)))"
  by (cases n) (simp add: withChildren_def)

lemma filterNode_plain:
  "\<not> isAstroIsland n \<Longrightarrow>
   filterNode n =
     (if filterNodes (children n) \<noteq> []
      then Some (withChildren n (filterNodes (children n))) else None)"
  by (cases n) (simp add: withChildren_def Let_def)

lemma filter_all_lead:
  "filterNode n = Some m \<Longrightarrow> list_all hasIslandDescendant (nodes m)"
  "list_all hasIslandDescendant (nodesOf (filterNodes cs))"
proof (induction n and cs arbitrary: m rule: filterNode_filterNodes.induct)
  case (1 i t isI cn cd p f cs d pa)
  show ?case
  proof (cases isI)
    case True
    with 1 show ?thesis by auto
  next
    case False
    with 1(3) have ne: "filterNodes cs \<noteq> []"
      and m: "m = TreeNode i t isI cn cd p f (filterNodes cs) d pa"
      by (auto simp: Let_def split: if_splits)
    from ne obtain x xs where xs: "filterNodes cs = x # xs"
      by (cases "filterNodes cs") auto
    from 1(2)[OF False]
    have all: "list_all hasIslandDescendant (nodesOf (filterNodes cs))" .
    then have "hasIslandDescendant x" using xs by (cases x) auto
    then have "someIslandDescendant (filterNodes cs)" using xs by simp
    with all m show ?thesis by simp
  qed
next
  case 2
  then show ?case by simp
next
  case (3 c cs)
  then show ?case by (auto split: option.splits)
qed

text \<open>
  C1, as the code has it.  The filter returns a copy in which every island node is kept
  with its own fields and with its children filtered by the same rule (not with its
  original subtree); a node that is no island is kept iff at least one filtered child
  survives; the surviving children of any node are, in order, the filtered copies of
  exactly the children with an island at or below them; a tree is dropped (the result
  is absent) iff it has no island anywhere; and every node of a result has an island at
  or below it.
\<close>

theorem filterNode_islands_and_ancestors:
  "(isAstroIsland n \<longrightarrow>
      filterNode n = Some (withChildren n (filterNodes (children n))))
   \<and> (\<not> isAstroIsland n \<longrightarrow>
      filterNode n =
        (if filterNodes (children n) \<noteq> []
         then Some (withChildren n (filterNodes (children n))) else None))
   \<and> filterNodes cs = map (\<lambda>c. the (filterNode c)) (filter hasIslandDescendant cs)
   \<and> ((filterNode n = None) = (\<not> hasIslandDescendant n))
   \<and> (\<forall>m. filterNode n = Some m \<longrightarrow> list_all hasIslandDescendant (nodes m))"
  using filterNode_island[of n] filterNode_plain[of n] filterNodes_survivors[of cs]
    filter_none_iff(1)[of n] filter_all_lead(1)[of n]
  by blast

theorem filterNode_islands_and_ancestors_witness:
  "isAstroIsland sampleIsland
   \<and> filterNode sampleIsland = Some (withChildren sampleIsland [])
   \<and> \<not> isAstroIsland sampleTree
   \<and> filterNode sampleTree = Some (withChildren sampleTree [withChildren sampleIsland []])
   \<and> filterNode plainTree = None \<and> \<not> hasIslandDescendant plainTree
   \<and> list_all hasIslandDescendant (nodes (withChildren sampleTree [withChildren sampleIsland []]))"
  using filterNode_islands_and_ancestors[of sampleIsland "children sampleIsland"]
    filterNode_islands_and_ancestors[of sampleTree "children sampleTree"]
    filterNode_islands_and_ancestors[of plainTree "children plainTree"]
  by (simp add: sampleIsland_def sampleTree_def sampleDiv_def sampleP_def plainTree_def
      withChildren_def)

text \<open>
  C1 as worded fails: an island is not kept with its original subtree.  The island of
  the sample has one child, a \<open>div\<close> with no island below it; the filter keeps the
  island and drops that child.
\<close>

theorem filterNode_island_subtree_counterexample:
  "isAstroIsland sampleIsland
   \<and> children sampleIsland = [sampleDiv]
   \<and> filterNode sampleIsland = Some (withChildren sampleIsland [])
   \<and> filterNode sampleIsland \<noteq> Some sampleIsland"
  by (simp add: sampleIsland_def sampleDiv_def withChildren_def)

section \<open>Flattening\<close>

lemma chainExpanded_pair [simp]:
  "chainExpanded E (n, anc) = list_all (\<lambda>a. a \<in> E) anc"
  by (simp add: chainExpanded_def)

lemma hidden_empty:
  "a \<in> set anc \<Longrightarrow> a \<notin> E \<Longrightarrow> filter (chainExpanded E) (withAncestors t anc) = []"
  "a \<in> set anc \<Longrightarrow> a \<notin> E \<Longrightarrow> filter (chainExpanded E) (withAncestorsOf cs anc) = []"
  by (induction t anc and cs anc rule: withAncestors_withAncestorsOf.induct)
     (auto simp: list_all_iff)

lemma flatten_eq:
  "list_all (\<lambda>a. a \<in> E) anc \<Longrightarrow>
     flattenVisibleTree t E r = r @ map fst (filter (chainExpanded E) (withAncestors t anc))"
  "list_all (\<lambda>a. a \<in> E) anc \<Longrightarrow>
     flattenVisibleChildren cs E r =
       r @ map fst (filter (chainExpanded E) (withAncestorsOf cs anc))"
proof (induction t E r and cs E r arbitrary: anc and anc
    rule: flattenVisibleTree_flattenVisibleChildren.induct)
  case (1 i t isI cn cd p f cs d pa expandedNodes result)
  show ?case
  proof (cases "i \<in> expandedNodes")
    case True
    then have "list_all (\<lambda>a. a \<in> expandedNodes) (anc @ [i])" using 1(2) by simp
    from 1(1)[OF refl True this] 1(2) True show ?thesis by simp
  next
    case False
    have "filter (chainExpanded expandedNodes) (withAncestorsOf cs (anc @ [i])) = []"
      by (rule hidden_empty(2)[of i]) (use False in auto)
    with False 1(2) show ?thesis by simp
  qed
next
  case (2 expandedNodes result)
  then show ?case by simp
next
  case (3 c cs expandedNodes result)
  from 3(1)[OF 3(3)] 3(2)[OF 3(3)] show ?case by simp
qed

lemma withAncestors_root: "withAncestors t anc = (t, anc) # tl (withAncestors t anc)"
  by (cases t) simp

lemma withAncestors_below:
  "tl (withAncestors t []) = withAncestorsOf (children t) [id_node t]"
  by (cases t) simp

text \<open>
  C5.  The length of the flattened list is 1, for the root, plus the count of the nodes
  below the root whose ancestor chain (the node itself excluded) lies within the expanded
  ids.  More: the flattened list is exactly the root followed by these nodes, in document
  order.  The nodes below the root with their chains are
  \<open>withAncestorsOf (children t) [id_node t]\<close>, the tail of \<open>withAncestors t []\<close>.
\<close>

theorem flattenVisibleTree_chain_expanded:
  "flattenVisibleTree t expandedIds [] =
     map fst (filter (chainExpanded expandedIds) (withAncestors t []))
   \<and> length (flattenVisibleTree t expandedIds []) =
       length (filter (chainExpanded expandedIds) (withAncestors t []))
   \<and> length (flattenVisibleTree t expandedIds []) =
       1 + length (filter (chainExpanded expandedIds) (tl (withAncestors t [])))
   \<and> length (flattenVisibleTree t expandedIds []) =
       1 + length (filter (chainExpanded expandedIds)
                     (withAncestorsOf (children t) [id_node t]))
   \<and> flattenVisibleTree t expandedIds [] =
       t # map fst (filter (chainExpanded expandedIds)
                     (withAncestorsOf (children t) [id_node t]))"
proof -
  have eq: "flattenVisibleTree t expandedIds [] =
      map fst (filter (chainExpanded expandedIds) (withAncestors t []))"
    using flatten_eq(1)[of expandedIds "[]" t "[]"] by simp
  have "filter (chainExpanded expandedIds) (withAncestors t []) =
      (t, []) # filter (chainExpanded expandedIds) (tl (withAncestors t []))"
    by (subst withAncestors_root) simp
  with eq show ?thesis by (simp add: withAncestors_below)
qed

section \<open>Auto-expand set\<close>

lemma rootPaths_hd:
  "p \<in> set (rootPaths t) \<Longrightarrow> p \<noteq> [] \<and> hd p = t"
  by (cases t) auto

lemma rootPaths_child:
  "c \<in> set (children t) \<Longrightarrow> p \<in> set (rootPaths c) \<Longrightarrow> t # p \<in> set (rootPaths t)"
proof -
  have aux: "\<And>cs. c \<in> set cs \<Longrightarrow> p \<in> set (rootPaths c) \<Longrightarrow> p \<in> set (rootPathsOf cs)"
  proof -
    fix cs show "c \<in> set cs \<Longrightarrow> p \<in> set (rootPaths c) \<Longrightarrow> p \<in> set (rootPathsOf cs)"
      by (induction cs) auto
  qed
  assume "c \<in> set (children t)" "p \<in> set (rootPaths c)"
  then show ?thesis using aux by (cases t) auto
qed

lemma islandPaths_child:
  assumes "c \<in> set (children t)" "p \<in> set (islandPaths c)"
  shows "t # p \<in> set (islandPaths t)"
proof -
  from assms(2) have p: "p \<in> set (rootPaths c)" and isl: "isAstroIsland (last p)"
    by (auto simp: islandPaths_def)
  from rootPaths_hd[OF p] have "p \<noteq> []" by simp
  then have "last (t # p) = last p" by simp
  with rootPaths_child[OF assms(1) p] isl show ?thesis by (simp add: islandPaths_def)
qed

lemma has_islandPath:
  "hasIslandDescendant t \<Longrightarrow> islandPaths t \<noteq> []"
  "someIslandDescendant cs \<Longrightarrow> \<exists>c \<in> set cs. islandPaths c \<noteq> []"
proof (induction t and cs rule: hasIslandDescendant_someIslandDescendant.induct)
  case (1 i t isI cn cd p f cs d pa)
  show ?case
  proof (cases isI)
    case True
    then show ?thesis by (simp add: islandPaths_def)
  next
    case False
    with 1 obtain c where c: "c \<in> set cs" "islandPaths c \<noteq> []" by auto
    then obtain q where "q \<in> set (islandPaths c)" by (cases "islandPaths c") auto
    from islandPaths_child[of c "TreeNode i t isI cn cd p f cs d pa", OF _ this] c(1)
    show ?thesis by auto
  qed
next
  case 2
  then show ?case by simp
next
  case (3 c cs)
  then show ?case by (auto split: if_splits)
qed

lemma onIslandPath_iff:
  "onIslandPath t i = (\<exists>p \<in> set (islandPaths t). \<exists>n \<in> set p. id_node n = i)"
  by (simp add: onIslandPath_def list_ex_iff)

lemma onIslandPath_self: "hasIslandDescendant t \<Longrightarrow> onIslandPath t (id_node t)"
proof -
  assume "hasIslandDescendant t"
  from has_islandPath(1)[OF this] obtain p where p: "p \<in> set (islandPaths t)"
    by (cases "islandPaths t") auto
  then have "p \<in> set (rootPaths t)" by (simp add: islandPaths_def)
  from rootPaths_hd[OF this] have "t \<in> set p" by (cases p) auto
  with p show ?thesis unfolding onIslandPath_iff by blast
qed

lemma onIslandPath_child:
  "c \<in> set (children t) \<Longrightarrow> onIslandPath c i \<Longrightarrow> onIslandPath t i"
  unfolding onIslandPath_iff using islandPaths_child by (meson list.set_intros(2))

lemma collect_sound:
  "i \<in> collectExpandedNodes t R \<Longrightarrow> i \<in> R \<or> i = id_node t \<or> onIslandPath t i"
  "i \<in> collectExpandedChildren cs R \<Longrightarrow> i \<in> R \<or> (\<exists>c \<in> set cs. onIslandPath c i)"
proof (induction t R and cs R rule: collectExpandedNodes_collectExpandedChildren.induct)
  case (1 j t isI cn cd p f cs d pa result)
  from 1(1)[OF 1(2)[simplified]] show ?case
    using onIslandPath_child[of _ "TreeNode j t isI cn cd p f cs d pa" i] by auto
next
  case (2 result)
  then show ?case by simp
next
  case (3 c cs result)
  from 3(2)[OF 3(3)[simplified]] show ?case
  proof
    assume "i \<in> (if hasIslandDescendant c then collectExpandedNodes c result else result)"
    then show ?thesis using 3(1) onIslandPath_self[of c] by (auto split: if_splits)
  next
    assume "\<exists>c \<in> set cs. onIslandPath c i"
    then show ?thesis by auto
  qed
qed

lemma collect_mono:
  "R \<subseteq> collectExpandedNodes t R"
  "R \<subseteq> collectExpandedChildren cs R"
  by (induction t R and cs R rule: collectExpandedNodes_collectExpandedChildren.induct)
     (auto split: if_splits)

lemma collect_root: "id_node t \<in> collectExpandedNodes t R"
proof (cases t)
  case (TreeNode x1 x2 x3 x4 x5 x6 x7 x8 x9 x10)
  have "insert x1 R \<subseteq> collectExpandedChildren x8 (insert x1 R)" by (rule collect_mono(2))
  then show ?thesis using TreeNode by auto
qed

lemma collect_no_island:
  "\<not> someIslandDescendant cs \<Longrightarrow> collectExpandedChildren cs R = R"
  by (induction cs arbitrary: R) (auto split: if_splits)

text \<open>
  C6, as the code has it.  The root's id is always in the set.  Every id in the set is
  the root's id or the id of a node on some path from the root to an island.  When the
  tree has an island, the root is on such a path too, so every id of the set is; when it
  has none, the set is the root's id alone.
\<close>

theorem collectExpandedNodes_on_island_paths:
  "id_node t \<in> collectExpandedNodes t {}
   \<and> (\<forall>i \<in> collectExpandedNodes t {}. i = id_node t \<or> onIslandPath t i)
   \<and> (hasIslandDescendant t \<longrightarrow> (\<forall>i \<in> collectExpandedNodes t {}. onIslandPath t i))
   \<and> (\<not> hasIslandDescendant t \<longrightarrow> collectExpandedNodes t {} = {id_node t})"
proof -
  have sound: "\<forall>i \<in> collectExpandedNodes t {}. i = id_node t \<or> onIslandPath t i"
    using collect_sound(1)[of _ t "{}"] by auto
  have none: "collectExpandedNodes t {} = {id_node t}" if "\<not> hasIslandDescendant t"
  proof (cases t)
    case (TreeNode x1 x2 x3 x4 x5 x6 x7 x8 x9 x10)
    with that have "\<not> someIslandDescendant x8" by (auto split: if_splits)
    from collect_no_island[OF this] TreeNode show ?thesis by simp
  qed
  have withIsland: "\<forall>i \<in> collectExpandedNodes t {}. onIslandPath t i"
    if "hasIslandDescendant t"
  proof
    fix i assume "i \<in> collectExpandedNodes t {}"
    with sound have "i = id_node t \<or> onIslandPath t i" by (rule bspec)
    with onIslandPath_self[OF that] show "onIslandPath t i" by (elim disjE) simp_all
  qed
  show ?thesis
  proof (intro conjI impI)
    show "id_node t \<in> collectExpandedNodes t {}" by (rule collect_root)
    show "\<forall>i \<in> collectExpandedNodes t {}. i = id_node t \<or> onIslandPath t i" by (rule sound)
    show "\<forall>i \<in> collectExpandedNodes t {}. onIslandPath t i" if "hasIslandDescendant t"
      using that by (rule withIsland)
    show "collectExpandedNodes t {} = {id_node t}" if "\<not> hasIslandDescendant t"
      using that by (rule none)
  qed
qed

theorem collectExpandedNodes_on_island_paths_witness:
  "hasIslandDescendant sampleTree
   \<and> collectExpandedNodes sampleTree {} = {''node-0'', ''node-1''}
   \<and> onIslandPath sampleTree ''node-0''
   \<and> onIslandPath sampleTree ''node-1''
   \<and> \<not> hasIslandDescendant plainTree
   \<and> collectExpandedNodes plainTree {} = {''node-0''}"
  using collectExpandedNodes_on_island_paths[of sampleTree]
    collectExpandedNodes_on_island_paths[of plainTree]
  by (simp add: sampleTree_def sampleIsland_def sampleDiv_def sampleP_def plainTree_def
      onIslandPath_def islandPaths_def insert_commute)

text \<open>
  C6 as worded fails on a tree without islands: the set still holds the root's id, and
  no path leads from the root to an island.
\<close>

theorem collectExpandedNodes_root_counterexample:
  "''node-0'' \<in> collectExpandedNodes plainTree {}
   \<and> islandPaths plainTree = []
   \<and> \<not> onIslandPath plainTree ''node-0''"
  by (simp add: plainTree_def onIslandPath_def islandPaths_def)

section \<open>Framework detection\<close>

lemma startsWith_append: "startsWith s p = (\<exists>t. s = p @ t)"
  by (induction s p rule: startsWith.induct) auto

lemma includes_iff: "includes_str s sub = (\<exists>a b. s = a @ sub @ b)"
proof (induction s)
  case Nil
  then show ?case by (auto simp: startsWith_append)
next
  case (Cons c cs)
  show ?case
  proof
    assume "includes_str (c # cs) sub"
    then show "\<exists>a b. c # cs = a @ sub @ b"
      using Cons by (auto simp: startsWith_append split: if_splits intro: exI[of _ "[]"]) (metis append_Cons)
  next
    assume "\<exists>a b. c # cs = a @ sub @ b"
    then obtain a b where ab: "c # cs = a @ sub @ b" by blast
    show "includes_str (c # cs) sub"
    proof (cases a)
      case Nil
      with ab have "startsWith (c # cs) sub" unfolding startsWith_append by auto
      then show ?thesis by simp
    next
      case (Cons x xs)
      with ab have "cs = xs @ sub @ b" by simp
      then show ?thesis using Cons.IH by auto
    qed
  qed
qed

lemma preact_react: "includes_str s ''preact'' \<Longrightarrow> includes_str s ''react''"
proof -
  assume "includes_str s ''preact''"
  then obtain a b where "s = a @ ''preact'' @ b" unfolding includes_iff by blast
  then have "s = (a @ ''p'') @ ''react'' @ b" by simp
  then show ?thesis unfolding includes_iff by blast
qed

text \<open>
  C10.  Every renderer URL that contains \<open>preact\<close> contains \<open>react\<close>, which is tested
  first; so the framework inferred from a renderer URL, and the \<open>framework\<close> field of the
  node built from any element, is never \<open>Preact\<close>.
\<close>

theorem frameworkOf_never_Preact:
  "(includes_str renderer ''preact'' \<longrightarrow> includes_str renderer ''react'')
   \<and> (includes_str renderer ''preact'' \<longrightarrow> frameworkOf renderer = Some ''React'')
   \<and> frameworkOf renderer \<noteq> Some ''Preact''
   \<and> framework (fst (buildTree h element dep pa nodeId)) \<noteq> Some ''Preact''"
proof -
  have never: "frameworkOf r \<noteq> Some ''Preact''" for r
    using preact_react[of r] by (simp add: frameworkOf_def)
  have react: "frameworkOf r = Some ''React''" if "includes_str r ''preact''" for r
    using preact_react[OF that] by (simp add: frameworkOf_def)
  have built: "framework (fst (buildTree h element dep pa nodeId)) \<noteq> Some ''Preact''"
  proof (cases element)
    case (Element tg ats r cs)
    show ?thesis unfolding Element buildTree.simps Let_def fst_conv TreeNode.sel
      using never by simp
  qed
  from never[of renderer] react[of renderer] preact_react[of renderer] built
  show ?thesis by blast
qed

theorem frameworkOf_never_Preact_witness:
  "includes_str ''/_astro/client.preact.js'' ''preact''
   \<and> includes_str ''/_astro/client.preact.js'' ''react''
   \<and> frameworkOf ''/_astro/client.preact.js'' = Some ''React''
   \<and> framework sampleIsland = Some ''React''"
proof -
  have a: "includes_str ''/_astro/client.preact.js'' ''preact''" by code_simp
  have b: "framework sampleIsland = Some ''React''" by code_simp
  from frameworkOf_never_Preact[of "''/_astro/client.preact.js''"] a b
  show ?thesis by blast
qed

section \<open>Paths and decimal indices\<close>

lemma digit_facts:
  assumes "d < 10"
  shows "isDigit (digitChar d)" "digitVal (digitChar d) = d" "digitChar d \<noteq> CHR ''.''"
proof -
  have oc: "of_char (digitChar d) = 48 + d" using assms by (simp add: digitChar_def)
  show "isDigit (digitChar d)" using assms by (simp add: isDigit_def oc)
  show "digitVal (digitChar d) = d" by (simp add: digitVal_def oc)
  have "(of_char (digitChar d) :: nat) \<noteq> of_char CHR ''.''" using oc by simp
  then show "digitChar d \<noteq> CHR ''.''" by auto
qed

lemma showNat_nonempty: "showNat n \<noteq> []"
  by (subst showNat.simps) simp

lemma showNat_digits: "list_all isDigit (showNat n)"
proof (induction n rule: showNat.induct)
  case (1 n)
  show ?case
  proof (cases "n < 10")
    case True
    then show ?thesis by (subst showNat.simps) (simp add: digit_facts)
  next
    case False
    with 1 show ?thesis by (subst showNat.simps) (simp add: digit_facts)
  qed
qed

lemma showNat_no_dot: "CHR ''.'' \<notin> set (showNat n)"
proof (induction n rule: showNat.induct)
  case (1 n)
  show ?case
  proof (cases "n < 10")
    case True
    then show ?thesis using digit_facts(3)[of n] by (subst showNat.simps) auto
  next
    case False
    with 1 show ?thesis using digit_facts(3)[of "n mod 10"] by (subst showNat.simps) auto
  qed
qed

lemma decimalValue_snoc: "decimalValue (s @ [c]) = 10 * decimalValue s + digitVal c"
  by (simp add: decimalValue_def)

lemma decimalValue_showNat: "decimalValue (showNat n) = n"
proof (induction n rule: showNat.induct)
  case (1 n)
  show ?case
  proof (cases "n < 10")
    case True
    then show ?thesis by (subst showNat.simps) (simp add: decimalValue_def digit_facts)
  next
    case False
    with 1 show ?thesis
      by (subst showNat.simps) (simp add: decimalValue_snoc digit_facts)
  qed
qed

lemma toIndex_showNat: "toIndex h (showNat i) = Some i"
  by (simp add: toIndex_def showNat_nonempty showNat_digits decimalValue_showNat)

lemma splitDotAcc_no_dot: "CHR ''.'' \<notin> set s \<Longrightarrow> splitDotAcc cur s = [cur @ s]"
  by (induction s arbitrary: cur) auto

lemma splitDotAcc_snoc:
  "CHR ''.'' \<notin> set t \<Longrightarrow> splitDotAcc cur (s @ CHR ''.'' # t) = splitDotAcc cur s @ [t]"
  by (induction s arbitrary: cur) (auto simp: splitDotAcc_no_dot)

lemma childPath_nonempty: "childPath p i \<noteq> []"
  by (simp add: childPath_def showNat_nonempty)

lemma pathSegments_childPath: "pathSegments (childPath p i) = pathSegments p @ [showNat i]"
proof (cases "p = []")
  case True
  then show ?thesis
    by (simp add: pathSegments_def childPath_def showNat_nonempty splitDot_def
        splitDotAcc_no_dot showNat_no_dot)
next
  case False
  have "splitDot (p @ CHR ''.'' # showNat i) = splitDot p @ [showNat i]"
    unfolding splitDot_def by (rule splitDotAcc_snoc) (rule showNat_no_dot)
  with False show ?thesis by (simp add: pathSegments_def childPath_def)
qed

lemma pathSegments_Nil: "pathSegments [] = []"
  by (simp add: pathSegments_def)

lemma pathSegments_pathAt: "pathSegments (pathAt p pos) = pathSegments p @ map showNat pos"
  by (induction pos arbitrary: p) (simp_all add: pathSegments_childPath)

lemma pathAt_nonempty: "pos \<noteq> [] \<Longrightarrow> pathAt p pos \<noteq> []"
proof (induction pos arbitrary: p)
  case Nil
  then show ?case by simp
next
  case (Cons i pos)
  show ?case
  proof (cases pos)
    case Nil
    then show ?thesis by (simp add: childPath_nonempty)
  next
    case (Cons j js)
    then show ?thesis using Cons.IH[of "childPath p i"] by simp
  qed
qed

lemma descend_elementAt: "descend (Some e) (map Some pos) = elementAt e pos"
proof (induction pos arbitrary: e)
  case Nil
  then show ?case by simp
next
  case (Cons i pos)
  show ?case
  proof (cases "i < length (childrenE e)")
    case True
    then show ?thesis using Cons.IH by (simp add: childAt_def)
  next
    case False
    then have "descend (childAt e (Some i)) (map Some pos) = None"
      by (cases pos) (simp_all add: childAt_def)
    with False show ?thesis by simp
  qed
qed

lemma findByPath_pathAt: "findByPath h body (pathAt [] pos) = elementAt body pos"
proof (cases "pos = []")
  case True
  then show ?thesis by (simp add: findByPath_def)
next
  case False
  then have ne: "pathAt [] pos \<noteq> []" by (rule pathAt_nonempty)
  have "splitDot (pathAt [] pos) = map showNat pos"
    using pathSegments_pathAt[of "[]" pos] ne by (simp add: pathSegments_def)
  then have "pathIndices h (pathAt [] pos) = map Some pos"
    by (simp add: pathIndices_def toIndex_showNat comp_def)
  with ne show ?thesis by (simp add: findByPath_def descend_elementAt)
qed

section \<open>Structure of the built tree\<close>

lemma buildTree_fields:
  "depth (fst (buildTree h e d p k)) = d"
  "path (fst (buildTree h e d p k)) = p"
  "children (fst (buildTree h e d p k)) = fst (buildChildren h (childrenE e) 0 (Suc d) p (Suc k))"
  "tagName (fst (buildTree h e d p k)) = toLowerCase (tagNameE e)"
  "id_node (fst (buildTree h e d p k)) = ''node-'' @ showNat k"
  by (cases e; simp add: Let_def)+

lemma buildChildren_length: "length (fst (buildChildren h cs i d p k)) = length cs"
  by (induction cs arbitrary: i k) (simp_all add: Let_def)

lemma buildChildren_nth:
  "j < length cs \<Longrightarrow>
     \<exists>k'. fst (buildChildren h cs i d p k) ! j = fst (buildTree h (cs ! j) d (childPath p (i + j)) k')"
proof (induction cs arbitrary: i j k)
  case Nil
  then show ?case by simp
next
  case (Cons c cs)
  show ?case
  proof (cases j)
    case 0
    then show ?thesis by (auto simp: Let_def)
  next
    case (Suc j')
    with Cons.prems have "j' < length cs" by simp
    from Cons.IH[OF this, of "i + 1" "snd (buildTree h c d (childPath p i) k)"]
    show ?thesis using Suc by (simp add: Let_def)
  qed
qed

lemma built_nodeAt:
  "nodeAt (fst (buildTree h e d p k)) pos = Some n \<Longrightarrow>
     \<exists>e' k'. elementAt e pos = Some e' \<and> n = fst (buildTree h e' (d + length pos) (pathAt p pos) k')"
proof (induction pos arbitrary: e d p k)
  case Nil
  then show ?case by auto
next
  case (Cons i pos)
  let ?kids = "fst (buildChildren h (childrenE e) 0 (Suc d) p (Suc k))"
  from Cons.prems have i: "i < length (childrenE e)" and at: "nodeAt (?kids ! i) pos = Some n"
    by (auto simp: buildTree_fields buildChildren_length split: if_splits)
  from buildChildren_nth[OF i, of h 0 "Suc d" p "Suc k"]
  obtain k' where "?kids ! i = fst (buildTree h (childrenE e ! i) (Suc d) (childPath p i) k')"
    by auto
  with at Cons.IH[of "childrenE e ! i" "Suc d" "childPath p i" k'] i
  show ?case by auto
qed

lemma nodes_nodeAt:
  "n \<in> set (nodes t) \<Longrightarrow> \<exists>pos. nodeAt t pos = Some n"
  "n \<in> set (nodesOf cs) \<Longrightarrow> \<exists>j pos. j < length cs \<and> nodeAt (cs ! j) pos = Some n"
proof (induction t and cs rule: nodes_nodesOf.induct)
  case (1 i t isI cn cd p f cs d pa)
  show ?case
  proof (cases "n = TreeNode i t isI cn cd p f cs d pa")
    case True
    then have "nodeAt (TreeNode i t isI cn cd p f cs d pa) [] = Some n" by simp
    then show ?thesis by blast
  next
    case False
    with 1 obtain j pos where "j < length cs" "nodeAt (cs ! j) pos = Some n" by auto
    then have "nodeAt (TreeNode i t isI cn cd p f cs d pa) (j # pos) = Some n" by simp
    then show ?thesis by blast
  qed
next
  case 2
  then show ?case by simp
next
  case (3 c cs)
  from 3(3) have "n \<in> set (nodes c) \<or> n \<in> set (nodesOf cs)" by simp
  then show ?case
  proof
    assume "n \<in> set (nodes c)"
    from 3(1)[OF this] obtain pos where "nodeAt c pos = Some n" by blast
    then have "0 < length (c # cs) \<and> nodeAt ((c # cs) ! 0) pos = Some n" by simp
    then show ?thesis by blast
  next
    assume "n \<in> set (nodesOf cs)"
    from 3(2)[OF this] obtain j pos where "j < length cs" "nodeAt (cs ! j) pos = Some n" by blast
    then have "Suc j < length (c # cs) \<and> nodeAt ((c # cs) ! Suc j) pos = Some n" by simp
    then show ?thesis by blast
  qed
qed


lemma built_node:
  assumes "n \<in> set (nodes (buildTreeInPage h body))"
  shows "\<exists>pos e k. nodeAt (buildTreeInPage h body) pos = Some n \<and> elementAt body pos = Some e
           \<and> n = fst (buildTree h e (length pos) (pathAt [] pos) k)"
proof -
  from nodes_nodeAt(1)[OF assms] obtain pos
    where pos: "nodeAt (buildTreeInPage h body) pos = Some n" by blast
  from built_nodeAt[OF pos[unfolded buildTreeInPage_def]] obtain e k
    where "elementAt body pos = Some e" "n = fst (buildTree h e (0 + length pos) (pathAt [] pos) k)"
    by blast
  with pos show ?thesis by auto
qed

lemma built_child:
  assumes n: "n = fst (buildTree h e d p k)" and i: "i < length (children n)"
  shows "path (children n ! i) = childPath p i" "depth (children n ! i) = Suc d"
proof -
  have len: "i < length (childrenE e)"
    using i unfolding n by (simp add: buildTree_fields buildChildren_length)
  from buildChildren_nth[OF len, of h 0 "Suc d" p "Suc k"] obtain k'
    where "children n ! i = fst (buildTree h (childrenE e ! i) (Suc d) (childPath p i) k')"
    unfolding n by (auto simp: buildTree_fields)
  then show "path (children n ! i) = childPath p i" "depth (children n ! i) = Suc d"
    by (simp_all add: buildTree_fields)
qed

text \<open>
  C3.  In the tree built from any page, the root has depth 0 and the empty path; every
  node's depth is the number of segments of its path; and for every node and every
  index \<open>i\<close> of a child of it, the child's path is the node's path with \<open>i\<close>
  appended (one more segment, the decimal \<open>i\<close>), and the child's depth is one more.
\<close>

theorem buildTree_path_depth_invariant:
  "depth (buildTreeInPage h body) = 0
   \<and> path (buildTreeInPage h body) = []
   \<and> (\<forall>n \<in> set (nodes (buildTreeInPage h body)).
         depth n = length (pathSegments (path n))
         \<and> (\<forall>i < length (children n).
               path (children n ! i) = childPath (path n) i
               \<and> pathSegments (path (children n ! i)) = pathSegments (path n) @ [showNat i]
               \<and> depth (children n ! i) = depth n + 1))"
proof (intro conjI ballI allI impI)
  show "depth (buildTreeInPage h body) = 0" "path (buildTreeInPage h body) = []"
    by (simp_all add: buildTreeInPage_def buildTree_fields)
next
  fix n assume "n \<in> set (nodes (buildTreeInPage h body))"
  from built_node[OF this] obtain pos e k
    where n: "n = fst (buildTree h e (length pos) (pathAt [] pos) k)" by blast
  have dp: "depth n = length pos" "path n = pathAt [] pos"
    by (subst n, simp add: buildTree_fields)+
  show "depth n = length (pathSegments (path n))"
    by (simp add: dp pathSegments_pathAt pathSegments_Nil)
  fix i assume i: "i < length (children n)"
  from built_child[OF n i] dp
  show "path (children n ! i) = childPath (path n) i" "depth (children n ! i) = depth n + 1"
    by simp_all
  then show "pathSegments (path (children n ! i)) = pathSegments (path n) @ [showNat i]"
    by (simp add: pathSegments_childPath)
qed

theorem buildTree_path_depth_invariant_witness:
  "buildTreeInPage sampleHost sampleBody = sampleTree
   \<and> sampleIsland \<in> set (nodes sampleTree)
   \<and> (0::nat) < length (children sampleIsland)
   \<and> depth sampleIsland = length (pathSegments (path sampleIsland))
   \<and> path (children sampleIsland ! 0) = childPath (path sampleIsland) 0
   \<and> pathSegments (path (children sampleIsland ! 0)) = pathSegments (path sampleIsland) @ [showNat 0]
   \<and> depth (children sampleIsland ! 0) = depth sampleIsland + 1"
proof -
  have e: "buildTreeInPage sampleHost sampleBody = sampleTree" by code_simp
  have m: "sampleIsland \<in> set (nodes sampleTree)" by code_simp
  have l: "(0::nat) < length (children sampleIsland)" by code_simp
  from buildTree_path_depth_invariant[of sampleHost sampleBody] m l
  show ?thesis unfolding e using e m l by blast
qed

text \<open>
  C4.  Every node of the built tree sits at some position; and the node at a position is
  built from the element at the same position of the page, its path has the decimal
  indices of the position as segments, and resolving its path against the same page
  gives exactly that element.
\<close>

theorem findByPath_round_trip:
  "(\<forall>n \<in> set (nodes (buildTreeInPage h body)).
       \<exists>pos. nodeAt (buildTreeInPage h body) pos = Some n)
   \<and> (\<forall>pos n. nodeAt (buildTreeInPage h body) pos = Some n \<longrightarrow>
         (\<exists>e k. elementAt body pos = Some e
            \<and> n = fst (buildTree h e (depth n) (path n) k)
            \<and> pathSegments (path n) = map showNat pos
            \<and> findByPath h body (path n) = Some e))"
proof (intro conjI ballI allI impI)
  fix n assume "n \<in> set (nodes (buildTreeInPage h body))"
  from nodes_nodeAt(1)[OF this] show "\<exists>pos. nodeAt (buildTreeInPage h body) pos = Some n" .
next
  fix pos n assume at: "nodeAt (buildTreeInPage h body) pos = Some n"
  from built_nodeAt[OF at[unfolded buildTreeInPage_def]] obtain e k
    where e: "elementAt body pos = Some e"
      and n: "n = fst (buildTree h e (0 + length pos) (pathAt [] pos) k)"
    by blast
  have dp: "depth n = length pos" "path n = pathAt [] pos"
    by (subst n, simp add: buildTree_fields)+
  have "n = fst (buildTree h e (depth n) (path n) k)" using n dp by simp
  moreover have "pathSegments (path n) = map showNat pos"
    by (simp add: dp pathSegments_pathAt pathSegments_Nil)
  moreover have "findByPath h body (path n) = Some e"
    by (simp add: dp findByPath_pathAt e)
  ultimately show "\<exists>e k. elementAt body pos = Some e
            \<and> n = fst (buildTree h e (depth n) (path n) k)
            \<and> pathSegments (path n) = map showNat pos
            \<and> findByPath h body (path n) = Some e"
    using e by blast
qed

theorem findByPath_round_trip_witness:
  "nodeAt (buildTreeInPage sampleHost sampleBody) [0, 0] = Some sampleDiv
   \<and> elementAt sampleBody [0, 0] = Some sampleDivE
   \<and> path sampleDiv = ''0.0''
   \<and> findByPath sampleHost sampleBody ''0.0'' = Some sampleDivE"
proof -
  have a: "nodeAt (buildTreeInPage sampleHost sampleBody) [0, 0] = Some sampleDiv" by code_simp
  have b: "elementAt sampleBody [0, 0] = Some sampleDivE" by code_simp
  have c: "path sampleDiv = ''0.0''" by code_simp
  from findByPath_round_trip[of sampleHost sampleBody] a
  obtain e where "elementAt sampleBody [0, 0] = Some e"
    "findByPath sampleHost sampleBody (path sampleDiv) = Some e" by blast
  with b c have "findByPath sampleHost sampleBody ''0.0'' = Some sampleDivE" by simp
  with a b c show ?thesis by blast
qed

section \<open>Keyboard navigation: Left\<close>

lemma nodes_self: "t \<in> set (nodes t)"
  by (cases t) simp

lemma nodesOf_member: "c \<in> set cs \<Longrightarrow> set (nodes c) \<subseteq> set (nodesOf cs)"
  by (induction cs) auto

lemma nodes_child: "c \<in> set (children t) \<Longrightarrow> set (nodes c) \<subseteq> set (nodes t)"
  using nodesOf_member by (cases t) auto

lemma findParent_sound:
  "findParent t i par = Some q \<Longrightarrow>
     (par = Some q \<and> id_node t = i)
     \<or> (q \<in> set (nodes t) \<and> (\<exists>c \<in> set (children q). id_node c = i))"
  "findParentIn cs i p = Some q \<Longrightarrow>
     (q = p \<and> (\<exists>c \<in> set cs. id_node c = i))
     \<or> (\<exists>c \<in> set cs. q \<in> set (nodes c) \<and> (\<exists>c' \<in> set (children q). id_node c' = i))"
proof (induction t i par and cs i p arbitrary: q and q rule: findParent_findParentIn.induct)
  case (1 j t isI cn cd p f cs d pa targetId parent)
  let ?n = "TreeNode j t isI cn cd p f cs d pa"
  show ?case
  proof (cases "j = targetId")
    case True
    with 1(2) show ?thesis by simp
  next
    case False
    with 1(2) have "findParentIn cs targetId ?n = Some q" by simp
    from 1(1)[OF False this] show ?thesis
    proof
      assume "q = ?n \<and> (\<exists>c \<in> set cs. id_node c = targetId)"
      then show ?thesis by auto
    next
      assume "\<exists>c \<in> set cs. q \<in> set (nodes c) \<and> (\<exists>c' \<in> set (children q). id_node c' = targetId)"
      then obtain c where c: "c \<in> set cs" "q \<in> set (nodes c)"
        "\<exists>c' \<in> set (children q). id_node c' = targetId" by blast
      from nodesOf_member[OF c(1)] c(2) have "q \<in> set (nodesOf cs)" by blast
      with c(3) show ?thesis by simp
    qed
  qed
next
  case (2 targetId par)
  then show ?case by simp
next
  case (3 c cs targetId par)
  show ?case
  proof (cases "findParent c targetId (Some par)")
    case None
    with 3(3) have "findParentIn cs targetId par = Some q" by simp
    from 3(2)[OF None this] show ?thesis by auto
  next
    case (Some found)
    with 3(3) have q: "found = q" by simp
    from 3(1)[OF Some[unfolded q]] show ?thesis by auto
  qed
qed

lemma findParent_root: "findParent t (id_node t) None = None"
  by (cases t) simp

lemma flatten_nonempty: "flattenVisibleTree t E [] \<noteq> []"
proof -
  have "flattenVisibleTree t E [] = map fst (filter (chainExpanded E) (withAncestors t []))"
    using flatten_eq(1)[of E "[]" t "[]"] by simp
  also have "withAncestors t [] = (t, []) # tl (withAncestors t [])"
    by (rule withAncestors_root)
  finally show ?thesis by simp
qed

lemma findParent_absent:
  "i \<notin> id_node ` set (nodes t) \<Longrightarrow> findParent t i par = None"
  "i \<notin> id_node ` set (nodesOf cs) \<Longrightarrow> findParentIn cs i p = None"
  by (induction t i par and cs i p rule: findParent_findParentIn.induct)
     (auto simp: image_Un)

lemma nodes_closed:
  "q \<in> set (nodes t) \<Longrightarrow> set (nodes q) \<subseteq> set (nodes t)"
  "q \<in> set (nodesOf cs) \<Longrightarrow> set (nodes q) \<subseteq> set (nodesOf cs)"
  by (induction t and cs rule: nodes_nodesOf.induct) auto

lemma child_in_nodes: "c \<in> set (children q) \<Longrightarrow> c \<in> set (nodes q)"
  using nodes_child[of c q] nodes_self[of c] by blast

lemma findParentIn_child:
  "distinct (map id_node (nodesOf cs)) \<Longrightarrow> c \<in> set cs \<Longrightarrow>
     findParentIn cs (id_node c) p = Some p"
proof (induction cs)
  case Nil
  then show ?case by simp
next
  case (Cons x xs)
  show ?case
  proof (cases "c = x")
    case True
    then show ?thesis by (cases x) simp
  next
    case False
    with Cons.prems have cx: "c \<in> set xs" by simp
    then have "c \<in> set (nodesOf xs)" using nodesOf_member[OF cx] nodes_self[of c] by blast
    with Cons.prems(1) have "id_node c \<notin> id_node ` set (nodes x)" by auto
    then have "findParent x (id_node c) (Some p) = None" by (rule findParent_absent(1))
    moreover from Cons.prems(1) have "distinct (map id_node (nodesOf xs))" by simp
    ultimately show ?thesis using Cons.IH cx by simp
  qed
qed

lemma findParentIn_below:
  assumes "\<And>x q c par. x \<in> set cs \<Longrightarrow> distinct (map id_node (nodes x)) \<Longrightarrow>
             q \<in> set (nodes x) \<Longrightarrow> c \<in> set (children q) \<Longrightarrow>
             findParent x (id_node c) par = Some q"
    and "distinct (map id_node (nodesOf cs))" "q \<in> set (nodesOf cs)" "c \<in> set (children q)"
  shows "findParentIn cs (id_node c) p = Some q"
  using assms
proof (induction cs)
  case Nil
  then show ?case by simp
next
  case (Cons x xs)
  from Cons.prems(2) have dx: "distinct (map id_node (nodes x))"
    and dxs: "distinct (map id_node (nodesOf xs))"
    and disj: "id_node ` set (nodes x) \<inter> id_node ` set (nodesOf xs) = {}"
    by auto
  show ?case
  proof (cases "q \<in> set (nodes x)")
    case True
    from Cons.prems(1)[of x q c "Some p", OF _ dx True Cons.prems(4)]
    show ?thesis by simp
  next
    case False
    with Cons.prems(3) have q: "q \<in> set (nodesOf xs)" by simp
    from nodes_closed(2)[OF q] child_in_nodes[OF Cons.prems(4)]
    have "c \<in> set (nodesOf xs)" by blast
    with disj have "id_node c \<notin> id_node ` set (nodes x)" by blast
    then have none: "findParent x (id_node c) (Some p) = None" by (rule findParent_absent(1))
    have "findParentIn xs (id_node c) p = Some q"
      by (rule Cons.IH[OF Cons.prems(1) dxs q Cons.prems(4)]) simp_all
    with none show ?thesis by simp
  qed
qed

lemma findParent_complete:
  "distinct (map id_node (nodes t)) \<Longrightarrow> q \<in> set (nodes t) \<Longrightarrow> c \<in> set (children q) \<Longrightarrow>
     findParent t (id_node c) par = Some q"
proof (induction t arbitrary: q c par)
  case (TreeNode j tg isI cn cd pr f cs d pa)
  let ?n = "TreeNode j tg isI cn cd pr f cs d pa"
  from TreeNode.prems(1) have dcs: "distinct (map id_node (nodesOf cs))"
    and jn: "j \<notin> id_node ` set (nodesOf cs)" by auto
  have cin: "c \<in> set (nodesOf cs)"
  proof (cases "q = ?n")
    case True
    with TreeNode.prems(3) have "c \<in> set cs" by simp
    then show ?thesis using nodesOf_member[of c cs] nodes_self[of c] by blast
  next
    case False
    with TreeNode.prems(2) have "q \<in> set (nodesOf cs)" by simp
    from nodes_closed(2)[OF this] child_in_nodes[OF TreeNode.prems(3)] show ?thesis by blast
  qed
  with jn have ne: "j \<noteq> id_node c" by auto
  show ?case
  proof (cases "q = ?n")
    case True
    with TreeNode.prems(3) have "c \<in> set cs" by simp
    from findParentIn_child[OF dcs this, of ?n] ne True show ?thesis by simp
  next
    case False
    with TreeNode.prems(2) have q: "q \<in> set (nodesOf cs)" by simp
    have "findParentIn cs (id_node c) ?n = Some q"
      by (rule findParentIn_below[OF _ dcs q TreeNode.prems(3)]) (rule TreeNode.IH)
    with ne show ?thesis by simp
  qed
qed


lemma showNat_inj: "showNat a = showNat b \<Longrightarrow> a = b"
  by (metis decimalValue_showNat)

lemma nodeIds_distinct: "distinct (map (\<lambda>j. ''node-'' @ showNat j) [a..<b])"
  by (auto simp: distinct_map inj_on_def dest: showNat_inj)

lemma nodes_unfold: "nodes t = t # nodesOf (children t)"
  by (cases t) simp

lemma buildTree_snd:
  "snd (buildTree h e d p k) = snd (buildChildren h (childrenE e) 0 (Suc d) p (Suc k))"
  by (cases e) (simp add: Let_def)

lemma buildChildren_Cons:
  "fst (buildChildren h (c # cs) i d p k) =
     fst (buildTree h c d (childPath p i) k)
       # fst (buildChildren h cs (Suc i) d p (snd (buildTree h c d (childPath p i) k)))"
  "snd (buildChildren h (c # cs) i d p k) =
     snd (buildChildren h cs (Suc i) d p (snd (buildTree h c d (childPath p i) k)))"
  by (simp_all add: Let_def)

lemma upt_split: "a \<le> b \<Longrightarrow> b \<le> c \<Longrightarrow> [a..<c] = [a..<b] @ [b..<c]"
  using upt_add_eq_append[of a b "c - b"] by simp

lemma built_children_ids:
  assumes "\<And>x d p k. x \<in> set cs \<Longrightarrow>
      map id_node (nodes (fst (buildTree h x d p k))) =
        map (\<lambda>j. ''node-'' @ showNat j) [k..<snd (buildTree h x d p k)]
      \<and> k < snd (buildTree h x d p k)"
  shows "map id_node (nodesOf (fst (buildChildren h cs i d p k))) =
     map (\<lambda>j. ''node-'' @ showNat j) [k..<snd (buildChildren h cs i d p k)]
   \<and> k \<le> snd (buildChildren h cs i d p k)"
  using assms
proof (induction cs arbitrary: i k)
  case Nil
  then show ?case by simp
next
  case (Cons c cs)
  let ?k1 = "snd (buildTree h c d (childPath p i) k)"
  let ?k2 = "snd (buildChildren h cs (Suc i) d p ?k1)"
  from Cons.prems[of c d "childPath p i" k]
  have a: "map id_node (nodes (fst (buildTree h c d (childPath p i) k))) =
      map (\<lambda>j. ''node-'' @ showNat j) [k..<?k1]" and l1: "k < ?k1" by simp_all
  have "map id_node (nodesOf (fst (buildChildren h cs (Suc i) d p ?k1))) =
     map (\<lambda>j. ''node-'' @ showNat j) [?k1..<?k2] \<and> ?k1 \<le> ?k2"
    by (rule Cons.IH) (rule Cons.prems, simp)
  then have b: "map id_node (nodesOf (fst (buildChildren h cs (Suc i) d p ?k1))) =
     map (\<lambda>j. ''node-'' @ showNat j) [?k1..<?k2]" and l2: "?k1 \<le> ?k2" by simp_all
  from l1 l2 have split: "[k..<?k2] = [k..<?k1] @ [?k1..<?k2]" by (intro upt_split) simp_all
  have "map id_node (nodesOf (fst (buildChildren h (c # cs) i d p k))) =
      map (\<lambda>j. ''node-'' @ showNat j) [k..<?k2]"
    unfolding buildChildren_Cons(1) split by (simp add: a b)
  moreover have "snd (buildChildren h (c # cs) i d p k) = ?k2" by (rule buildChildren_Cons(2))
  ultimately show ?case using l1 l2 by simp
qed

lemma built_ids:
  "map id_node (nodes (fst (buildTree h e d p k))) =
     map (\<lambda>j. ''node-'' @ showNat j) [k..<snd (buildTree h e d p k)]
   \<and> k < snd (buildTree h e d p k)"
proof (induction e arbitrary: d p k)
  case (Element tg ats r cs)
  let ?e = "Element tg ats r cs"
  let ?k' = "snd (buildChildren h cs 0 (Suc d) p (Suc k))"
  have kids: "map id_node (nodesOf (fst (buildChildren h cs 0 (Suc d) p (Suc k)))) =
      map (\<lambda>j. ''node-'' @ showNat j) [Suc k..<?k'] \<and> Suc k \<le> ?k'"
    by (rule built_children_ids) (rule Element.IH)
  then have le: "Suc k \<le> ?k'" by simp
  then have upt: "[k..<?k'] = k # [Suc k..<?k']" by (simp add: upt_conv_Cons)
  have snd: "snd (buildTree h ?e d p k) = ?k'" using buildTree_snd[of h ?e d p k] by simp
  have "map id_node (nodes (fst (buildTree h ?e d p k))) =
      (''node-'' @ showNat k) # map id_node (nodesOf (fst (buildChildren h cs 0 (Suc d) p (Suc k))))"
    by (subst nodes_unfold) (simp add: Let_def)
  with kids upt snd le show ?case by simp
qed

lemma built_ids_distinct: "distinct (map id_node (nodes (buildTreeInPage h body)))"
proof -
  from built_ids[of h body 0 "[]" 0]
  have eq: "map id_node (nodes (fst (buildTree h body 0 [] 0))) =
     map (\<lambda>j. ''node-'' @ showNat j) [0..<snd (buildTree h body 0 [] 0)]" by simp
  show ?thesis unfolding buildTreeInPage_def eq by (rule nodeIds_distinct)
qed

lemma has_from_below:
  "q \<in> set (nodes t) \<Longrightarrow> hasIslandDescendant q \<Longrightarrow> hasIslandDescendant t"
  "q \<in> set (nodesOf cs) \<Longrightarrow> hasIslandDescendant q \<Longrightarrow> someIslandDescendant cs"
  by (induction t and cs rule: nodes_nodesOf.induct) (auto split: if_splits)

lemma no_island_below:
  "\<not> hasIslandDescendant t \<Longrightarrow> filter hasIslandDescendant (nodes t) = []"
  using has_from_below(1)[of _ t] by (auto simp: filter_empty_conv)

lemma filtered_ids:
  "filterNode n = Some m \<Longrightarrow>
     map id_node (nodes m) = map id_node (filter hasIslandDescendant (nodes n))"
  "map id_node (nodesOf (filterNodes cs)) = map id_node (filter hasIslandDescendant (nodesOf cs))"
proof (induction n and cs arbitrary: m rule: filterNode_filterNodes.induct)
  case (1 i t isI cn cd p f cs d pa)
  show ?case
  proof (cases isI)
    case True
    with 1 show ?thesis by auto
  next
    case False
    with 1(3) have ne: "filterNodes cs \<noteq> []"
      and m: "m = TreeNode i t isI cn cd p f (filterNodes cs) d pa"
      by (auto simp: Let_def split: if_splits)
    from ne have "someIslandDescendant cs" using filter_none_iff(2)[of cs] by simp
    with 1(2)[OF False] m False show ?thesis by simp
  qed
next
  case 2
  then show ?case by simp
next
  case (3 c cs)
  show ?case
  proof (cases "filterNode c")
    case None
    then have "\<not> hasIslandDescendant c" by (simp add: filter_none_iff(1))
    from no_island_below[OF this] None 3(2)[OF None] show ?thesis by simp
  next
    case (Some c')
    from 3(1)[OF Some] 3(3)[OF Some] Some show ?thesis by simp
  qed
qed

lemma filtered_ids_distinct:
  assumes "distinct (map id_node (nodes n))" "filterNode n = Some m"
  shows "distinct (map id_node (nodes m))"
  unfolding filtered_ids(1)[OF assms(2)] using assms(1) by (rule distinct_map_filter)

lemma filteredTree_ids_distinct:
  assumes "tree s = Some (buildTreeInPage h body)" "filteredTree s = Some ft"
  shows "distinct (map id_node (nodes ft))"
proof (cases "showIslandsOnly s")
  case False
  with assms have "ft = buildTreeInPage h body" by (simp add: filteredTree_def)
  then show ?thesis by (simp add: built_ids_distinct)
next
  case True
  with assms have "filterNode (buildTreeInPage h body) = Some ft" by (simp add: filteredTree_def)
  from filtered_ids_distinct[OF built_ids_distinct this] show ?thesis .
qed


text \<open>
  C9, as the code has it.  The handler returns at once, changing nothing, when there is
  no filtered tree.  With a filtered tree and a selected node: Left on a node that is
  expanded and has children removes its id from the expanded set and leaves the selection
  alone; Left otherwise selects the parent that \<open>findParent\<close> finds in the filtered tree
  and scrolls to it, and does nothing when there is none.  In a filtered tree with
  distinct ids \<open>findParent\<close> finds, for the id of a child of a node \<open>q\<close> of the tree, the
  node \<open>q\<close> itself: Left on a collapsed or childless node below the root selects its
  direct parent.  It finds none for the root's id and for an id that is not in the tree.
  The ids are distinct in every tree the builder makes and in its filtered copy.
\<close>

theorem handleKeyDown_ArrowLeft:
  assumes "selectedNode s = Some sel"
  shows "(filteredTree s = None \<longrightarrow>
           handleKeyDown ''ArrowLeft'' s = (s, \<lparr>preventDefault = False, scrolls = []\<rparr>))
       \<and> (filteredTree s = Some ft \<and> id_node sel \<in> expandedNodes s \<and> children sel \<noteq> [] \<longrightarrow>
           handleKeyDown ''ArrowLeft'' s =
             (s\<lparr>expandedNodes := expandedNodes s - {id_node sel}\<rparr>,
              \<lparr>preventDefault = True, scrolls = []\<rparr>))
       \<and> (filteredTree s = Some ft \<and> \<not> (id_node sel \<in> expandedNodes s \<and> children sel \<noteq> []) \<longrightarrow>
           handleKeyDown ''ArrowLeft'' s =
             (case findParent ft (id_node sel) None of
                Some parent \<Rightarrow>
                  (s\<lparr>selectedNode := Some parent\<rparr>,
                   \<lparr>preventDefault = True, scrolls = [path parent]\<rparr>)
              | None \<Rightarrow> (s, \<lparr>preventDefault = True, scrolls = []\<rparr>)))
       \<and> findParent ft (id_node ft) None = None
       \<and> (\<forall>i parent. findParent ft i None = Some parent \<longrightarrow>
             parent \<in> set (nodes ft) \<and> (\<exists>c \<in> set (children parent). id_node c = i))
       \<and> (distinct (map id_node (nodes ft)) \<and> q \<in> set (nodes ft) \<and> c \<in> set (children q)
             \<and> id_node c = id_node sel \<longrightarrow>
           findParent ft (id_node sel) None = Some q)
       \<and> (filteredTree s = Some ft \<and> distinct (map id_node (nodes ft))
             \<and> q \<in> set (nodes ft) \<and> c \<in> set (children q) \<and> id_node c = id_node sel
             \<and> \<not> (id_node sel \<in> expandedNodes s \<and> children sel \<noteq> []) \<longrightarrow>
           handleKeyDown ''ArrowLeft'' s =
             (s\<lparr>selectedNode := Some q\<rparr>,
              \<lparr>preventDefault = True, scrolls = [path q]\<rparr>))
       \<and> (filteredTree s = Some ft
             \<and> (id_node sel = id_node ft \<or> id_node sel \<notin> id_node ` set (nodes ft))
             \<and> \<not> (id_node sel \<in> expandedNodes s \<and> children sel \<noteq> []) \<longrightarrow>
           handleKeyDown ''ArrowLeft'' s = (s, \<lparr>preventDefault = True, scrolls = []\<rparr>))
       \<and> (tree s = Some (buildTreeInPage h body) \<and> filteredTree s = Some ft \<longrightarrow>
           distinct (map id_node (nodes ft)))"
proof (intro conjI allI impI)
  show "handleKeyDown ''ArrowLeft'' s = (s, \<lparr>preventDefault = False, scrolls = []\<rparr>)"
    if "filteredTree s = None"
    using that by (simp add: handleKeyDown_def)
  have vis: "visibleNodes s \<noteq> []" if "filteredTree s = Some ft"
    using that flatten_nonempty by (simp add: visibleNodes_def)
  show "handleKeyDown ''ArrowLeft'' s =
      (s\<lparr>expandedNodes := expandedNodes s - {id_node sel}\<rparr>,
       \<lparr>preventDefault = True, scrolls = []\<rparr>)"
    if "filteredTree s = Some ft \<and> id_node sel \<in> expandedNodes s \<and> children sel \<noteq> []"
    using that assms vis by (simp add: handleKeyDown_def handled_def toggleNode_def)
  have left: "handleKeyDown ''ArrowLeft'' s =
      (case findParent ft (id_node sel) None of
         Some parent \<Rightarrow>
           (s\<lparr>selectedNode := Some parent\<rparr>,
            \<lparr>preventDefault = True, scrolls = [path parent]\<rparr>)
       | None \<Rightarrow> (s, \<lparr>preventDefault = True, scrolls = []\<rparr>))"
    if "filteredTree s = Some ft \<and> \<not> (id_node sel \<in> expandedNodes s \<and> children sel \<noteq> [])"
    using that assms vis
    by (auto simp: handleKeyDown_def handled_def selectAndScroll_def split: option.splits)
  then show "handleKeyDown ''ArrowLeft'' s =
      (case findParent ft (id_node sel) None of
         Some parent \<Rightarrow>
           (s\<lparr>selectedNode := Some parent\<rparr>,
            \<lparr>preventDefault = True, scrolls = [path parent]\<rparr>)
       | None \<Rightarrow> (s, \<lparr>preventDefault = True, scrolls = []\<rparr>))"
    if "filteredTree s = Some ft \<and> \<not> (id_node sel \<in> expandedNodes s \<and> children sel \<noteq> [])"
    using that .
  show "findParent ft (id_node ft) None = None" by (rule findParent_root)
  show "parent \<in> set (nodes ft)" "\<exists>c \<in> set (children parent). id_node c = i"
    if "findParent ft i None = Some parent" for i parent
    using findParent_sound(1)[OF that] by auto
  have complete: "findParent ft (id_node sel) None = Some q"
    if "distinct (map id_node (nodes ft)) \<and> q \<in> set (nodes ft) \<and> c \<in> set (children q)
             \<and> id_node c = id_node sel"
    using that findParent_complete[of ft q c None] by simp
  then show "findParent ft (id_node sel) None = Some q"
    if "distinct (map id_node (nodes ft)) \<and> q \<in> set (nodes ft) \<and> c \<in> set (children q)
             \<and> id_node c = id_node sel"
    using that .
  show "handleKeyDown ''ArrowLeft'' s =
      (s\<lparr>selectedNode := Some q\<rparr>, \<lparr>preventDefault = True, scrolls = [path q]\<rparr>)"
    if h: "filteredTree s = Some ft \<and> distinct (map id_node (nodes ft))
             \<and> q \<in> set (nodes ft) \<and> c \<in> set (children q) \<and> id_node c = id_node sel
             \<and> \<not> (id_node sel \<in> expandedNodes s \<and> children sel \<noteq> [])"
  proof -
    from h have "findParent ft (id_node sel) None = Some q" by (intro complete) simp
    moreover from h have "handleKeyDown ''ArrowLeft'' s =
      (case findParent ft (id_node sel) None of
         Some parent \<Rightarrow>
           (s\<lparr>selectedNode := Some parent\<rparr>,
            \<lparr>preventDefault = True, scrolls = [path parent]\<rparr>)
       | None \<Rightarrow> (s, \<lparr>preventDefault = True, scrolls = []\<rparr>))"
      by (intro left) simp
    ultimately show ?thesis by simp
  qed
  show "handleKeyDown ''ArrowLeft'' s = (s, \<lparr>preventDefault = True, scrolls = []\<rparr>)"
    if h: "filteredTree s = Some ft
             \<and> (id_node sel = id_node ft \<or> id_node sel \<notin> id_node ` set (nodes ft))
             \<and> \<not> (id_node sel \<in> expandedNodes s \<and> children sel \<noteq> [])"
  proof -
    from h have "findParent ft (id_node sel) None = None"
      using findParent_root[of ft] findParent_absent(1)[of "id_node sel" ft None] by auto
    moreover from h have "handleKeyDown ''ArrowLeft'' s =
      (case findParent ft (id_node sel) None of
         Some parent \<Rightarrow>
           (s\<lparr>selectedNode := Some parent\<rparr>,
            \<lparr>preventDefault = True, scrolls = [path parent]\<rparr>)
       | None \<Rightarrow> (s, \<lparr>preventDefault = True, scrolls = []\<rparr>))"
      by (intro left) simp
    ultimately show ?thesis by simp
  qed
  show "distinct (map id_node (nodes ft))"
    if "tree s = Some (buildTreeInPage h body) \<and> filteredTree s = Some ft"
    using that filteredTree_ids_distinct[of s h body ft] by simp
qed

theorem handleKeyDown_ArrowLeft_witness:
  "selectedNode collapsedRun = Some sampleIsland
   \<and> tree collapsedRun = Some (buildTreeInPage sampleHost sampleBody)
   \<and> filteredTree collapsedRun = Some sampleTree
   \<and> distinct (map id_node (nodes sampleTree))
   \<and> id_node sampleIsland \<in> expandedNodes collapsedRun
   \<and> children sampleIsland \<noteq> []
   \<and> handleKeyDown ''ArrowLeft'' collapsedRun =
       (collapsedRun\<lparr>expandedNodes := expandedNodes collapsedRun - {id_node sampleIsland}\<rparr>,
        \<lparr>preventDefault = True, scrolls = []\<rparr>)
   \<and> expandedNodes collapsedRun - {id_node sampleIsland} = {''node-0''}
   \<and> sampleTree \<in> set (nodes sampleTree)
   \<and> sampleIsland \<in> set (children sampleTree)
   \<and> findParent sampleTree (id_node sampleIsland) None = Some sampleTree
   \<and> handleKeyDown ''ArrowLeft'' (collapsedRun\<lparr>expandedNodes := {''node-0''}\<rparr>) =
       (collapsedRun\<lparr>expandedNodes := {''node-0''}, selectedNode := Some sampleTree\<rparr>,
        \<lparr>preventDefault = True, scrolls = [path sampleTree]\<rparr>)
   \<and> selectedNode secondChildRun = Some sampleP
   \<and> filteredTree secondChildRun = Some sampleTree
   \<and> sampleP \<in> set (children sampleTree)
   \<and> children sampleP = []
   \<and> handleKeyDown ''ArrowLeft'' secondChildRun =
       (secondChildRun\<lparr>selectedNode := Some sampleTree\<rparr>,
        \<lparr>preventDefault = True, scrolls = [path sampleTree]\<rparr>)"
proof -
  let ?s2 = "collapsedRun\<lparr>expandedNodes := {''node-0''}\<rparr>"
  have a: "selectedNode collapsedRun = Some sampleIsland" by code_simp
  have t: "tree collapsedRun = Some (buildTreeInPage sampleHost sampleBody)" by code_simp
  have b: "filteredTree collapsedRun = Some sampleTree" by code_simp
  have c: "id_node sampleIsland \<in> expandedNodes collapsedRun" by code_simp
  have d: "children sampleIsland \<noteq> []" by code_simp
  have e: "expandedNodes collapsedRun - {id_node sampleIsland} = {''node-0''}" by code_simp
  have q: "sampleTree \<in> set (nodes sampleTree)" by code_simp
  have ch: "sampleIsland \<in> set (children sampleTree)" by code_simp
  have a2: "selectedNode ?s2 = Some sampleIsland" by code_simp
  have b2: "filteredTree ?s2 = Some sampleTree" by code_simp
  have c2: "\<not> (id_node sampleIsland \<in> expandedNodes ?s2 \<and> children sampleIsland \<noteq> [])"
    by code_simp
  have a3: "selectedNode secondChildRun = Some sampleP" by code_simp
  have b3: "filteredTree secondChildRun = Some sampleTree" by code_simp
  have ch3: "sampleP \<in> set (children sampleTree)" by code_simp
  have d3: "children sampleP = []" by code_simp
  from handleKeyDown_ArrowLeft[OF a, of sampleTree _ _ sampleHost sampleBody] t b
  have dist: "distinct (map id_node (nodes sampleTree))" by blast
  from handleKeyDown_ArrowLeft[OF a, of sampleTree] b c d
  have g: "handleKeyDown ''ArrowLeft'' collapsedRun =
       (collapsedRun\<lparr>expandedNodes := expandedNodes collapsedRun - {id_node sampleIsland}\<rparr>,
        \<lparr>preventDefault = True, scrolls = []\<rparr>)" by blast
  from handleKeyDown_ArrowLeft[OF a2, of sampleTree sampleTree sampleIsland] dist q ch
  have f: "findParent sampleTree (id_node sampleIsland) None = Some sampleTree" by blast
  from handleKeyDown_ArrowLeft[OF a2, of sampleTree sampleTree sampleIsland] b2 c2 dist q ch
  have "handleKeyDown ''ArrowLeft'' ?s2 =
       (?s2\<lparr>selectedNode := Some sampleTree\<rparr>,
        \<lparr>preventDefault = True, scrolls = [path sampleTree]\<rparr>)" by blast
  then have h: "handleKeyDown ''ArrowLeft'' ?s2 =
       (collapsedRun\<lparr>expandedNodes := {''node-0''}, selectedNode := Some sampleTree\<rparr>,
        \<lparr>preventDefault = True, scrolls = [path sampleTree]\<rparr>)" by simp
  from handleKeyDown_ArrowLeft[OF a3, of sampleTree sampleTree sampleP] b3 d3 dist q ch3
  have k: "handleKeyDown ''ArrowLeft'' secondChildRun =
       (secondChildRun\<lparr>selectedNode := Some sampleTree\<rparr>,
        \<lparr>preventDefault = True, scrolls = [path sampleTree]\<rparr>)" by blast
  from a t b dist c d g e q ch f h a3 b3 ch3 d3 k show ?thesis by blast
qed

text \<open>
  C9 as worded fails where there is no filtered tree.  On the page without islands the
  root is selected, expanded, and has a child; with the islands-only filter on, the
  filtered tree is absent, and Left collapses nothing: the state is unchanged and the
  root's id is still expanded.
\<close>

theorem handleKeyDown_no_filtered_tree_counterexample:
  "selectedNode noIslandsRun = Some plainTree
   \<and> id_node plainTree \<in> expandedNodes noIslandsRun
   \<and> children plainTree \<noteq> []
   \<and> filteredTree noIslandsRun = None
   \<and> handleKeyDown ''ArrowLeft'' noIslandsRun =
       (noIslandsRun, \<lparr>preventDefault = False, scrolls = []\<rparr>)
   \<and> id_node plainTree \<in> expandedNodes (fst (handleKeyDown ''ArrowLeft'' noIslandsRun))"
  by code_simp

section \<open>Bounding box of the overlay\<close>

lemma foldBounds_simps [simp]:
  "foldBounds [] b = b"
  "foldBounds (r # rs) b = foldBounds rs (extendBounds r b)"
  "foldBounds (rs @ rs') b = foldBounds rs' (foldBounds rs b)"
  by (simp_all add: foldBounds_def)

lemma calculateBounds_fold:
  "calculateBounds e b =
     foldBounds (filter nonZeroSized (map boundingClientRect (e # descendants e))) b"
  "calculateBoundsOfChildren cs b =
     foldBounds (filter nonZeroSized (map boundingClientRect (descendantsOf cs))) b"
proof (induction e b and cs b rule: calculateBounds_calculateBoundsOfChildren.induct)
  case (1 tg ats r cs b)
  then show ?case by (simp add: nonZeroSized_def)
next
  case (2 b)
  then show ?case by simp
next
  case (3 c cs b)
  then show ?case by simp
qed

lemma Min_insert_min:
  "finite S \<Longrightarrow> Min (insert (min a l) S) = Min (insert a (insert l S))"
  by (cases "S = {}") (simp_all add: min.assoc)

lemma Max_insert_max:
  "finite S \<Longrightarrow> Max (insert (max a l) S) = Max (insert a (insert l S))"
  by (cases "S = {}") (simp_all add: max.assoc)

lemma foldBounds_Some:
  "foldBounds rs (Some (a, b, c, d)) =
     Some (Min (insert a (set (map r_left rs))), Min (insert b (set (map r_top rs))),
           Max (insert c (set (map r_right rs))), Max (insert d (set (map r_bottom rs))))"
proof (induction rs arbitrary: a b c d)
  case Nil
  then show ?case by simp
next
  case (Cons r rs)
  show ?case
    by (simp add: extendBounds_def Cons.IH Min_insert_min Max_insert_max del: Min_insert Max_insert)
qed

lemma foldBounds_None:
  "foldBounds rs None =
     (if rs = [] then None
      else Some (Min (set (map r_left rs)), Min (set (map r_top rs)),
                 Max (set (map r_right rs)), Max (set (map r_bottom rs))))"
proof (cases rs)
  case Nil
  then show ?thesis by simp
next
  case (Cons r rs')
  then show ?thesis by (simp add: extendBounds_def foldBounds_Some del: Min_insert Max_insert)
qed

lemma bounds_unionBox:
  "(case foldBounds rs None of
      Some (minX, minY, maxX, maxY) \<Rightarrow> Some (DOMRect minY minX maxX maxY (maxX - minX) (maxY - minY))
    | None \<Rightarrow> None) = unionBox rs"
  by (simp add: foldBounds_None unionBox_def Let_def)

lemma synthesized:
  assumes "r_width (boundingClientRect e) = 0 \<or> r_height (boundingClientRect e) = 0"
  shows "calculateBounds e None = foldBounds (sizedDescendantRects e) None"
proof -
  have "\<not> nonZeroSized (boundingClientRect e)" using assms by (auto simp: nonZeroSized_def)
  then show ?thesis by (simp add: calculateBounds_fold(1) sizedDescendantRects_def)
qed

lemma overlayRect_synth:
  assumes z: "r_width (boundingClientRect e) = 0 \<or> r_height (boundingClientRect e) = 0"
    and c: "childrenE e \<noteq> []"
  shows "overlayRect e =
     (case unionBox (sizedDescendantRects e) of
        None \<Rightarrow> None
      | Some u \<Rightarrow> if r_width u = 0 \<or> r_height u = 0 then None else Some u)"
proof -
  have u: "unionBox (sizedDescendantRects e) =
     (case calculateBounds e None of
      Some (minX, minY, maxX, maxY) \<Rightarrow> Some (DOMRect minY minX maxX maxY (maxX - minX) (maxY - minY))
    | None \<Rightarrow> None)"
    by (simp add: synthesized[OF z] bounds_unionBox)
  show ?thesis
  proof (cases "calculateBounds e None")
    case None
    with u z c show ?thesis by (auto simp: overlayRect_def Let_def)
  next
    case (Some q)
    obtain minX minY maxX maxY where q: "q = (minX, minY, maxX, maxY)" by (cases q) auto
    with Some u z c show ?thesis by (simp add: overlayRect_def Let_def)
  qed
qed

lemma overlayRect_own:
  assumes "\<not> ((r_width (boundingClientRect e) = 0 \<or> r_height (boundingClientRect e) = 0)
              \<and> childrenE e \<noteq> [])"
  shows "overlayRect e =
     (if r_width (boundingClientRect e) = 0 \<or> r_height (boundingClientRect e) = 0
      then None else Some (boundingClientRect e))"
  using assms by (auto simp: overlayRect_def Let_def)

lemma unionBox_positive:
  assumes all: "list_all browserRect rs" and sized: "list_all nonZeroSized rs"
    and u: "unionBox rs = Some u"
  shows "0 < r_width u \<and> 0 < r_height u"
proof -
  from u have ne: "rs \<noteq> []" by (auto simp: unionBox_def split: if_splits)
  then obtain r where r: "r \<in> set rs" by (cases rs) auto
  with all sized have br: "browserRect r" and sz: "nonZeroSized r" by (auto simp: list_all_iff)
  have l: "Min (set (map r_left rs)) \<le> r_left r" using r by (intro Min_le) auto
  have t: "Min (set (map r_top rs)) \<le> r_top r" using r by (intro Min_le) auto
  have rt: "r_right r \<le> Max (set (map r_right rs))" using r by (intro Max_ge) auto
  have bt: "r_bottom r \<le> Max (set (map r_bottom rs))" using r by (intro Max_ge) auto
  from u ne have w: "r_width u = Max (set (map r_right rs)) - Min (set (map r_left rs))"
    and h: "r_height u = Max (set (map r_bottom rs)) - Min (set (map r_top rs))"
    by (auto simp: unionBox_def Let_def)
  from br sz have "r_left r < r_right r" "r_top r < r_bottom r"
    by (auto simp: browserRect_def nonZeroSized_def)
  with l t rt bt w h show ?thesis by linarith
qed

lemma sized_all: "list_all nonZeroSized (sizedDescendantRects e)"
  by (simp add: sizedDescendantRects_def list_all_iff)


text \<open>
  C2, as the code has it.  The box is synthesized exactly when at least one dimension of
  the element's own rectangle is zero and the element has children.  The synthesized box
  is the union box of the rectangles of all descendants, at any depth, that have positive
  width and height; with rectangles as the browser gives them this union has positive
  width and height and is the box of the overlay.  When no descendant is sized, or the
  element has a zero dimension and no children, there is no box and nothing is rendered;
  otherwise the box is the element's own rectangle.
\<close>

theorem overlayRect_descendant_union:
  "((r_width (boundingClientRect e) = 0 \<or> r_height (boundingClientRect e) = 0)
      \<and> childrenE e \<noteq> [] \<longrightarrow>
      overlayRect e =
        (case unionBox (sizedDescendantRects e) of
           None \<Rightarrow> None
         | Some u \<Rightarrow> if r_width u = 0 \<or> r_height u = 0 then None else Some u))
   \<and> (\<not> ((r_width (boundingClientRect e) = 0 \<or> r_height (boundingClientRect e) = 0)
          \<and> childrenE e \<noteq> []) \<longrightarrow>
      overlayRect e =
        (if r_width (boundingClientRect e) = 0 \<or> r_height (boundingClientRect e) = 0
         then None else Some (boundingClientRect e)))
   \<and> (list_all browserRect (sizedDescendantRects e)
        \<and> unionBox (sizedDescendantRects e) = Some u \<longrightarrow> 0 < r_width u \<and> 0 < r_height u)
   \<and> ((r_width (boundingClientRect e) = 0 \<or> r_height (boundingClientRect e) = 0)
        \<and> sizedDescendantRects e = [] \<longrightarrow> overlayRect e = None)"
proof (intro conjI impI)
  show "overlayRect e =
        (case unionBox (sizedDescendantRects e) of
           None \<Rightarrow> None
         | Some u \<Rightarrow> if r_width u = 0 \<or> r_height u = 0 then None else Some u)"
    if "(r_width (boundingClientRect e) = 0 \<or> r_height (boundingClientRect e) = 0)
      \<and> childrenE e \<noteq> []"
    using that overlayRect_synth[of e] by blast
  show "overlayRect e =
        (if r_width (boundingClientRect e) = 0 \<or> r_height (boundingClientRect e) = 0
         then None else Some (boundingClientRect e))"
    if "\<not> ((r_width (boundingClientRect e) = 0 \<or> r_height (boundingClientRect e) = 0)
          \<and> childrenE e \<noteq> [])"
    using that by (rule overlayRect_own)
  show "0 < r_width u" "0 < r_height u"
    if "list_all browserRect (sizedDescendantRects e)
        \<and> unionBox (sizedDescendantRects e) = Some u"
    using that unionBox_positive[OF _ sized_all, of e u] by simp_all
  show "overlayRect e = None"
    if h: "(r_width (boundingClientRect e) = 0 \<or> r_height (boundingClientRect e) = 0)
        \<and> sizedDescendantRects e = []"
  proof (cases "childrenE e = []")
    case True
    with h overlayRect_own[of e] show ?thesis by simp
  next
    case False
    with h overlayRect_synth[of e] show ?thesis by (simp add: unionBox_def)
  qed
qed

theorem overlayRect_descendant_union_witness:
  "r_width (boundingClientRect sampleIslandE) = 0
   \<and> childrenE sampleIslandE = [sampleDivE]
   \<and> list_all browserRect (sizedDescendantRects sampleIslandE)
   \<and> unionBox (sizedDescendantRects sampleIslandE) = Some (boundingClientRect sampleDivE)
   \<and> overlayRect sampleIslandE = Some (boundingClientRect sampleDivE)
   \<and> boundingClientRect sampleDivE = DOMRect 10 5 105 50 100 40
   \<and> sizedDescendantRects hollowIslandE = []
   \<and> overlayRect hollowIslandE = None
   \<and> overlayRect sampleDivE = Some (boundingClientRect sampleDivE)"
proof -
  have a: "r_width (boundingClientRect sampleIslandE) = 0" by code_simp
  have b: "childrenE sampleIslandE = [sampleDivE]" by code_simp
  have c: "list_all browserRect (sizedDescendantRects sampleIslandE)" by code_simp
  have d: "unionBox (sizedDescendantRects sampleIslandE) = Some (boundingClientRect sampleDivE)"
    by code_simp
  have e: "boundingClientRect sampleDivE = DOMRect 10 5 105 50 100 40" by code_simp
  have f: "sizedDescendantRects hollowIslandE = []" by code_simp
  have g: "r_width (boundingClientRect hollowIslandE) = 0" by code_simp
  have h: "\<not> ((r_width (boundingClientRect sampleDivE) = 0 \<or> r_height (boundingClientRect sampleDivE) = 0)
          \<and> childrenE sampleDivE \<noteq> [])" by code_simp
  have i: "\<not> (r_width (boundingClientRect sampleDivE) = 0 \<or> r_height (boundingClientRect sampleDivE) = 0)"
    by code_simp
  have j: "0 < r_width (boundingClientRect sampleDivE) \<and> 0 < r_height (boundingClientRect sampleDivE)"
    by code_simp
  from overlayRect_descendant_union[of sampleIslandE "boundingClientRect sampleDivE"] a b d j
  have k: "overlayRect sampleIslandE = Some (boundingClientRect sampleDivE)" by simp
  from overlayRect_descendant_union[of hollowIslandE] f g
  have l: "overlayRect hollowIslandE = None" by blast
  from overlayRect_descendant_union[of sampleDivE] h i
  have m: "overlayRect sampleDivE = Some (boundingClientRect sampleDivE)" by simp
  from a b c d e f k l m show ?thesis by blast
qed

text \<open>
  C2 as worded fails where one dimension only is zero.  The box of the element is 0 wide
  and 40 high, and its child is 100 by 40 at (5, 10): the code synthesizes the child's
  box, while the rule ``both dimensions zero'' gives no synthesis and no overlay.
\<close>

theorem overlayRect_one_dimension_counterexample:
  "r_width (boundingClientRect thinIslandE) = 0
   \<and> r_height (boundingClientRect thinIslandE) = 40
   \<and> childrenE thinIslandE = [sampleDivE]
   \<and> overlayRect thinIslandE = Some (DOMRect 10 5 105 50 100 40)
   \<and> overlayRect_spec thinIslandE = None"
  by code_simp


section \<open>Highlight and scroll without a target\<close>













lemma labelOf_malformed:
  assumes "toLowerCase (tagNameE e) = ''astro-island''"
    and "getAttribute e ''opts'' = Some name" and "JSON_parse h name = None"
  shows "labelOf h e = Inr (TagLabel ''astro-island'')"
  using assms by (simp add: labelOf_def labelTry_def Let_def)




section \<open>Component name of an island with malformed options\<close>

lemma malformed_opts_fallback:
  assumes "getAttribute e ''opts'' = Some os" "JSON_parse h os = None"
  shows "componentNameOf h e = JStr (nameFromUrl (getAttribute e ''component-url''))"
  using assms by (simp add: componentNameOf_def nameFromOpts_def parseOptsName_def)

lemma extensionToEnd_Cons:
  "extensionToEnd (c # t) = (c = CHR ''.'' \<and> t \<noteq> [] \<and> CHR ''.'' \<notin> set t)"
  by (simp add: extensionToEnd_def)

lemma lazyGroup_no_dot:
  "CHR ''.'' \<notin> set seg \<Longrightarrow> CHR ''/'' \<notin> set seg \<Longrightarrow>
     lazyGroup g seg = (if g @ seg = [] then None else Some (g @ seg))"
  by (induction seg arbitrary: g) (auto simp: extensionToEnd_Cons)

lemma lazyGroup_last_dot:
  "CHR ''/'' \<notin> set x \<Longrightarrow> CHR ''/'' \<notin> set e \<Longrightarrow> CHR ''.'' \<notin> set e \<Longrightarrow>
     lazyGroup g (x @ CHR ''.'' # e) =
       (if g @ x \<noteq> [] \<and> e \<noteq> [] then Some (g @ x) else Some (g @ x @ CHR ''.'' # e))"
proof (induction x arbitrary: g)
  case Nil
  then show ?case by (auto simp: extensionToEnd_Cons lazyGroup_no_dot)
next
  case (Cons c x)
  from Cons.prems have "c \<noteq> CHR ''/''" "CHR ''/'' \<notin> set x" by auto
  with Cons.IH[of "g @ [c]"] Cons.prems(2,3) show ?case
    by (simp add: extensionToEnd_Cons)
qed

lemma stripExtension_no_dot: "CHR ''.'' \<notin> set seg \<Longrightarrow> stripExtension seg = seg"
proof -
  assume "CHR ''.'' \<notin> set seg"
  then have tw: "takeWhile (\<lambda>c. c \<noteq> CHR ''.'') (rev seg) = rev seg"
    by (intro takeWhile_eq_all_conv[THEN iffD2]) auto
  show ?thesis unfolding stripExtension_def tw Let_def by simp
qed

lemma stripExtension_last_dot:
  assumes "CHR ''.'' \<notin> set e"
  shows "stripExtension (x @ CHR ''.'' # e) =
           (if x \<noteq> [] \<and> e \<noteq> [] then x else x @ CHR ''.'' # e)"
proof -
  have tw: "takeWhile (\<lambda>c. c \<noteq> CHR ''.'') (rev (x @ CHR ''.'' # e)) = rev e"
    using assms by (auto simp: takeWhile_tail)
  show ?thesis unfolding stripExtension_def tw Let_def by auto
qed

lemma lazyGroup_stripExtension:
  assumes "CHR ''/'' \<notin> set seg" "seg \<noteq> []"
  shows "lazyGroup [] seg = Some (stripExtension seg)"
proof (cases "CHR ''.'' \<in> set seg")
  case False
  with assms show ?thesis by (simp add: lazyGroup_no_dot stripExtension_no_dot)
next
  case True
  from split_list_last[OF this] obtain x e where xe: "seg = x @ CHR ''.'' # e" "CHR ''.'' \<notin> set e"
    by blast
  with assms(1) have "CHR ''/'' \<notin> set x" "CHR ''/'' \<notin> set e" by auto
  from lazyGroup_last_dot[OF this xe(2), of "[]"] stripExtension_last_dot[OF xe(2), of x]
  show ?thesis unfolding xe(1) by simp
qed

lemma lazyGroup_blocked:
  "CHR ''.'' \<notin> set d \<Longrightarrow> lazyGroup g (d @ CHR ''/'' # rest) = None"
  by (induction d arbitrary: g) (auto simp: extensionToEnd_Cons)

lemma matchComponentUrl_last_segment:
  assumes "CHR ''.'' \<notin> set dir" "CHR ''/'' \<notin> set seg"
  shows "matchComponentUrl (dir @ CHR ''/'' # seg) =
           (if seg = [] then None else Some (stripExtension seg))"
  using assms(1)
proof (induction dir)
  case Nil
  show ?case
  proof (cases "seg = []")
    case True
    then show ?thesis by simp
  next
    case False
    with lazyGroup_stripExtension[OF assms(2)] show ?thesis by simp
  qed
next
  case (Cons c dir)
  then have IH: "matchComponentUrl (dir @ CHR ''/'' # seg) =
           (if seg = [] then None else Some (stripExtension seg))"
    and nd: "CHR ''.'' \<notin> set dir" by auto
  have blocked: "lazyGroup [] (dir @ CHR ''/'' # seg) = None"
    by (rule lazyGroup_blocked[OF nd])
  have step: "matchComponentUrl ((c # dir) @ CHR ''/'' # seg) =
      matchComponentUrl (dir @ CHR ''/'' # seg)"
    using blocked by (cases "c = CHR ''/''") simp_all
  show ?case unfolding step by (rule IH)
qed

lemma matchComponentUrl_no_slash:
  "CHR ''/'' \<notin> set url \<Longrightarrow> matchComponentUrl url = None"
  by (induction url) auto

lemma lastSegment_append:
  "CHR ''/'' \<notin> set seg \<Longrightarrow> lastSegment (dir @ CHR ''/'' # seg) = seg"
proof -
  assume "CHR ''/'' \<notin> set seg"
  then have tw: "takeWhile (\<lambda>c. c \<noteq> CHR ''/'') (rev seg) = rev seg"
    by (intro takeWhile_eq_all_conv[THEN iffD2]) auto
  have cut: "takeWhile (\<lambda>c. c \<noteq> CHR ''/'') (rev (dir @ CHR ''/'' # seg)) =
      takeWhile (\<lambda>c. c \<noteq> CHR ''/'') (rev seg)"
    by (simp add: takeWhile_tail)
  show ?thesis unfolding lastSegment_def cut tw by simp
qed

lemma stripExtension_Nil: "stripExtension [] = []"
  by (simp add: stripExtension_def)

lemma stripExtension_nonempty: "seg \<noteq> [] \<Longrightarrow> stripExtension seg \<noteq> []"
  by (auto simp: stripExtension_def Let_def)

lemma nameFromUrl_agrees:
  assumes "CHR ''.'' \<notin> set dir" "CHR ''/'' \<notin> set seg"
  shows "nameFromUrl (Some (dir @ CHR ''/'' # seg)) = nameFromUrl_spec (Some (dir @ CHR ''/'' # seg))"
  using assms stripExtension_nonempty[of seg]
  by (simp add: nameFromUrl_def nameFromUrl_spec_def matchComponentUrl_last_segment
      lastSegment_append stripExtension_Nil Let_def)

text \<open>
  When \<open>JSON.parse\<close> throws on the \<open>opts\<close> of an island, the node is built all the
  same, with the name taken from the component URL, or \<open>Island\<close>.  For a URL with a
  \<open>/\<close> and no dot before its last \<open>/\<close> that name is the one the specification asks
  for (lemma \<open>nameFromUrl_agrees\<close>); a URL without any \<open>/\<close> gives \<open>Island\<close>.
\<close>

lemma buildTree_malformed_opts:
  assumes "toLowerCase (tagNameE e) = ''astro-island''"
    and "getAttribute e ''opts'' = Some os" and "JSON_parse h os = None"
  shows "componentName (fst (buildTree h e d p k)) =
           Some (JStr (nameFromUrl (getAttribute e ''component-url'')))"
proof (cases e)
  case (Element tg ats r cs)
  with assms(1) have "toLowerCase tg = ''astro-island''" by simp
  then have "componentName (fst (buildTree h (Element tg ats r cs) d p k)) =
      Some (componentNameOf h (Element tg ats r cs))"
    by (simp add: Let_def)
  with Element malformed_opts_fallback[OF assms(2,3)] show ?thesis by simp
qed

lemma nameFromUrl_no_slash:
  "CHR ''/'' \<notin> set url \<Longrightarrow> nameFromUrl (Some url) = ''Island''"
  by (simp add: nameFromUrl_def matchComponentUrl_no_slash)

lemma nameFromUrl_absent: "nameFromUrl None = ''Island''"
  by (simp add: nameFromUrl_def)

text \<open>
  C8.  The claim fails on the code where a directory of the component URL has a dot and
  the last segment has none: the optional extension group \<open>(?:\.[^.]+)?\<close> of the
  pattern runs across \<open>/\<close>, so the match is taken at the directory.  For the island
  with the malformed options \<open>{bad\<close> and the component URL \<open>/ui.kit/Counter\<close>, the
  builder gives the name \<open>ui\<close>; the last path segment is \<open>Counter\<close>.
\<close>

theorem buildTree_malformed_opts_dotted_directory:
  "toLowerCase (tagNameE dottedIslandE) = ''astro-island''
   \<and> getAttribute dottedIslandE ''opts'' = Some ''{bad''
   \<and> JSON_parse sampleHost ''{bad'' = None
   \<and> getAttribute dottedIslandE ''component-url'' = Some ''/ui.kit/Counter''
   \<and> matchComponentUrl ''/ui.kit/Counter'' = Some ''ui''
   \<and> componentName (fst (buildTree sampleHost dottedIslandE 1 ''0'' 1)) = Some (JStr ''ui'')
   \<and> lastSegment ''/ui.kit/Counter'' = ''Counter''
   \<and> nameFromUrl_spec (Some ''/ui.kit/Counter'') = ''Counter''"
  by code_simp

end
